theory Spec2Isabelle
  imports Main "HOL-Library.Multiset"
begin

section \<open>Qtanon: entity-placeholder substitution engine\<close>

text \<open>
  A shallow embedding of the placeholder assigner, the substitution engine and the
  mapping reader of \<^verbatim>\<open>src/Qtanon.py\<close> (and of the command-line predecessor
  \<^verbatim>\<open>src/fake-plates.py\<close> where it differs).

  Modelling conventions.
  \<^item> Text is a \<open>string\<close>, one \<open>char\<close> per character: the code points 0 to 255 (Latin-1),
    \<open>of_char c\<close> being \<^verbatim>\<open>ord(c)\<close>. The string methods and the regular expression engine
    classify them by Python's Unicode tables: white space includes U+0085 and U+00A0,
    \<^verbatim>\<open>str.lower\<close> and \<^verbatim>\<open>re.IGNORECASE\<close> fold \<open>A..Z\<close> and U+00C0..U+00DE (but U+00D7), the
    word characters of \<^verbatim>\<open>\w\<close> and \<^verbatim>\<open>\b\<close> are the alphanumeric code points and the
    underscore, \<^verbatim>\<open>str.isnumeric\<close> accepts the superscripts and the fractions. These code
    points are closed under every operation the program performs; text with a character
    above 255 is outside the model.
  \<^item> An exception is a value: a function that can raise returns \<open>py_exn + 'a\<close>.
  \<^item> \<^verbatim>\<open>list.sort\<close> mutates the caller's list, so the two substitution functions return
    the list as it is after the call beside their result.
  \<^item> \<^verbatim>\<open>log_callback\<close> only reports; its messages are modelled where a claim is about
    them (the mapping reader) and left out elsewhere.
\<close>

subsection \<open>Characters and the string methods the program calls\<close>

text \<open>The characters \<^verbatim>\<open>str.lower\<close> changes: \<open>A..Z\<close>, U+00C0..U+00D6 and U+00D8..U+00DE.\<close>

definition is_upper :: "char \<Rightarrow> bool" where
  "is_upper c \<longleftrightarrow>
     (65 \<le> (of_char c :: nat) \<and> (of_char c :: nat) \<le> 90) \<or>
     (192 \<le> (of_char c :: nat) \<and> (of_char c :: nat) \<le> 214) \<or>
     (216 \<le> (of_char c :: nat) \<and> (of_char c :: nat) \<le> 222)"

text \<open>\<^verbatim>\<open>ASCIILETTERS\<close>, \<^verbatim>\<open>DIGITS\<close> and \<^verbatim>\<open>OCTDIGITS\<close> of the template parser.\<close>

definition is_ascii_letter :: "char \<Rightarrow> bool" where
  "is_ascii_letter c \<longleftrightarrow>
     (65 \<le> (of_char c :: nat) \<and> (of_char c :: nat) \<le> 90) \<or>
     (97 \<le> (of_char c :: nat) \<and> (of_char c :: nat) \<le> 122)"

definition is_digit :: "char \<Rightarrow> bool" where
  "is_digit c \<longleftrightarrow> 48 \<le> (of_char c :: nat) \<and> (of_char c :: nat) \<le> 57"

definition is_octdigit :: "char \<Rightarrow> bool" where
  "is_octdigit c \<longleftrightarrow> 48 \<le> (of_char c :: nat) \<and> (of_char c :: nat) \<le> 55"

text \<open>\<^verbatim>\<open>\w\<close> of the \<^verbatim>\<open>re\<close> module for a \<^verbatim>\<open>str\<close> pattern: \<^verbatim>\<open>str.isalnum\<close> or the underscore.
  Below 256 these are the ASCII letters and digits, the underscore, the ordinal
  indicators (170, 186), the superscripts (178, 179, 185), the micro sign (181), the
  fractions (188..190) and the letters 192..255 but the two operators 215 and 247.\<close>

definition is_word_char :: "char \<Rightarrow> bool" where
  "is_word_char c \<longleftrightarrow>
     (48 \<le> (of_char c :: nat) \<and> (of_char c :: nat) \<le> 57) \<or>
     (65 \<le> (of_char c :: nat) \<and> (of_char c :: nat) \<le> 90) \<or>
     (of_char c :: nat) = 95 \<or>
     (97 \<le> (of_char c :: nat) \<and> (of_char c :: nat) \<le> 122) \<or>
     (of_char c :: nat) = 170 \<or>
     (of_char c :: nat) = 178 \<or> (of_char c :: nat) = 179 \<or>
     (of_char c :: nat) = 181 \<or>
     (of_char c :: nat) = 185 \<or> (of_char c :: nat) = 186 \<or>
     (188 \<le> (of_char c :: nat) \<and> (of_char c :: nat) \<le> 190) \<or>
     (192 \<le> (of_char c :: nat) \<and> (of_char c :: nat) \<le> 214) \<or>
     (216 \<le> (of_char c :: nat) \<and> (of_char c :: nat) \<le> 246) \<or>
     248 \<le> (of_char c :: nat)"

text \<open>\<^verbatim>\<open>str.isspace\<close>, the white space of \<^verbatim>\<open>str.strip\<close> and \<^verbatim>\<open>str.split\<close>: tab, line feed,
  vertical tab, form feed, carriage return, the four separators 28..31, the space, the
  next-line control U+0085 and the no-break space U+00A0.\<close>

definition is_space :: "char \<Rightarrow> bool" where
  "is_space c \<longleftrightarrow>
     (9 \<le> (of_char c :: nat) \<and> (of_char c :: nat) \<le> 13) \<or>
     (28 \<le> (of_char c :: nat) \<and> (of_char c :: nat) \<le> 32) \<or>
     (of_char c :: nat) = 133 \<or> (of_char c :: nat) = 160"

text \<open>\<^verbatim>\<open>str.lower\<close> of one character; \<^verbatim>\<open>re.IGNORECASE\<close> compares characters by it.\<close>

definition lower_char :: "char \<Rightarrow> char" where
  "lower_char c = (if is_upper c then char_of ((of_char c :: nat) + 32) else c)"

text \<open>\<^verbatim>\<open>str.lower\<close>.\<close>

definition str_lower :: "string \<Rightarrow> string" where
  "str_lower s = map lower_char s"

text \<open>\<^verbatim>\<open>str.strip\<close> with no argument.\<close>

definition strip :: "string \<Rightarrow> string" where
  "strip s = rev (dropWhile is_space (rev (dropWhile is_space s)))"

text \<open>\<^verbatim>\<open>str.split\<close> with no argument: the maximal runs of characters that are not white
  space. \<open>cur\<close> is the token being read.\<close>

fun split_from :: "string \<Rightarrow> string \<Rightarrow> string list" where
  "split_from cur [] = (if cur = [] then [] else [cur])"
| "split_from cur (c # cs) =
     (if is_space c then (if cur = [] then split_from [] cs else cur # split_from [] cs)
      else split_from (cur @ [c]) cs)"

definition split :: "string \<Rightarrow> string list" where
  "split s = split_from [] s"

text \<open>\<^verbatim>\<open>str.isnumeric\<close>: at least one character, all of them numeric. Below 256 the
  numeric characters are the digits, the superscripts one, two and three and the three
  fractions.\<close>

definition is_numeric_char :: "char \<Rightarrow> bool" where
  "is_numeric_char c \<longleftrightarrow>
     (48 \<le> (of_char c :: nat) \<and> (of_char c :: nat) \<le> 57) \<or>
     (of_char c :: nat) = 178 \<or> (of_char c :: nat) = 179 \<or> (of_char c :: nat) = 185 \<or>
     (188 \<le> (of_char c :: nat) \<and> (of_char c :: nat) \<le> 190)"

definition isnumeric :: "string \<Rightarrow> bool" where
  "isnumeric s \<longleftrightarrow> s \<noteq> [] \<and> list_all is_numeric_char s"

text \<open>\<^verbatim>\<open>str.startswith\<close>, for one prefix and for a tuple of prefixes.\<close>

definition startswith :: "string \<Rightarrow> string \<Rightarrow> bool" where
  "startswith s p \<longleftrightarrow> take (length p) s = p"

definition startswith_any :: "string \<Rightarrow> string list \<Rightarrow> bool" where
  "startswith_any s ps \<longleftrightarrow> list_ex (startswith s) ps"

text \<open>Decimal digits of a number, and the format specifications \<^verbatim>\<open>{n}\<close> and
  \<^verbatim>\<open>{n:03d}\<close> of an f-string (zero padding to three digits, never truncating).\<close>

definition digit_char :: "nat \<Rightarrow> char" where
  "digit_char d = char_of (48 + d)"

fun dec :: "nat \<Rightarrow> string" where
  "dec n = (if n < 10 then [digit_char n] else dec (n div 10) @ [digit_char (n mod 10)])"

declare dec.simps [simp del]

definition format_03d :: "nat \<Rightarrow> string" where
  "format_03d n = replicate (3 - length (dec n)) (CHR ''0'') @ dec n"

text \<open>\<^verbatim>\<open>dict.get(key, default)\<close>.\<close>

definition dict_get :: "('k \<rightharpoonup> 'v) \<Rightarrow> 'k \<Rightarrow> 'v \<Rightarrow> 'v" where
  "dict_get m k d = (case m k of None \<Rightarrow> d | Some v \<Rightarrow> v)"

subsection \<open>Exceptions\<close>

datatype py_exn = ReError | IndexError | KeyError

subsection \<open>\<^verbatim>\<open>re.sub\<close> for the patterns the program builds\<close>

text \<open>
  Every pattern the program compiles is an escaped literal, optionally between two
  \<^verbatim>\<open>\b\<close>, matched with \<^verbatim>\<open>re.IGNORECASE\<close>. It has no group, it never fails to
  compile and (the literal being non-empty at every call) it never matches the empty
  string. The replacement is a callable or a string; a string is a template, parsed
  before the scan starts (\<^verbatim>\<open>re._parser.parse_template\<close> of CPython 3.12), where a
  backslash starts an escape.
\<close>

datatype tpiece = TLit char | TGroup0

definition backslash :: char where
  "backslash = CHR 0x5C"

text \<open>\<^verbatim>\<open>str.isidentifier\<close>: a first character that can start an identifier, then characters
  that can continue one (below 256: the letters and the underscore; then also the
  digits and the middle dot 183).\<close>

definition is_id_start :: "char \<Rightarrow> bool" where
  "is_id_start c \<longleftrightarrow>
     (65 \<le> (of_char c :: nat) \<and> (of_char c :: nat) \<le> 90) \<or>
     (of_char c :: nat) = 95 \<or>
     (97 \<le> (of_char c :: nat) \<and> (of_char c :: nat) \<le> 122) \<or>
     (of_char c :: nat) = 170 \<or> (of_char c :: nat) = 181 \<or> (of_char c :: nat) = 186 \<or>
     (192 \<le> (of_char c :: nat) \<and> (of_char c :: nat) \<le> 214) \<or>
     (216 \<le> (of_char c :: nat) \<and> (of_char c :: nat) \<le> 246) \<or>
     248 \<le> (of_char c :: nat)"

definition is_id_continue :: "char \<Rightarrow> bool" where
  "is_id_continue c \<longleftrightarrow>
     is_id_start c \<or> (48 \<le> (of_char c :: nat) \<and> (of_char c :: nat) \<le> 57) \<or>
     (of_char c :: nat) = 183"

definition is_identifier :: "string \<Rightarrow> bool" where
  "is_identifier s \<longleftrightarrow>
     (case s of [] \<Rightarrow> False | c # cs \<Rightarrow> is_id_start c \<and> list_all is_id_continue cs)"

definition oct_val :: "string \<Rightarrow> nat" where
  "oct_val ds = foldl (\<lambda>v d. 8 * v + ((of_char d :: nat) - 48)) 0 ds"

text \<open>The characters of \<^verbatim>\<open>ESCAPES\<close>: \<^verbatim>\<open>\a \b \f \n \r \t \v \\\<close>.\<close>

definition escapes :: "char \<rightharpoonup> char" where
  "escapes = map_of
     [(CHR ''a'', char_of (7::nat)), (CHR ''b'', char_of (8::nat)), (CHR ''f'', char_of (12::nat)),
      (CHR ''n'', char_of (10::nat)), (CHR ''r'', char_of (13::nat)), (CHR ''t'', char_of (9::nat)),
      (CHR ''v'', char_of (11::nat)), (CHR 0x5C, CHR 0x5C)]"

definition tcons :: "tpiece list \<Rightarrow> py_exn + tpiece list \<Rightarrow> py_exn + tpiece list" where
  "tcons ps r = (case r of Inl e \<Rightarrow> Inl e | Inr qs \<Rightarrow> Inr (ps @ qs))"

text \<open>
  The template parser, for a pattern with no group. The first error in reading order
  is the one raised. A group reference other than \<^verbatim>\<open>\g<0>\<close> is \<^verbatim>\<open>re.error\<close>; a
  well-formed but unknown group name is \<^verbatim>\<open>IndexError\<close>, unless the tokenizer's
  lookahead meets a lone final backslash first.
\<close>

function parse_template :: "string \<Rightarrow> py_exn + tpiece list" where
  "parse_template [] = Inr []"
| "parse_template (c # cs) =
     (if c \<noteq> backslash then tcons [TLit c] (parse_template cs)
      else (case cs of
        [] \<Rightarrow> Inl ReError
      | d # ds \<Rightarrow>
          if d = CHR ''g'' then
            (case ds of
               [] \<Rightarrow> Inl ReError
             | l # rest \<Rightarrow>
                 if l \<noteq> CHR ''<'' \<or> CHR ''>'' \<notin> set rest then Inl ReError
                 else if takeWhile (\<lambda>x. x \<noteq> CHR ''>'') rest = [] then Inl ReError
                 else if list_all is_digit (takeWhile (\<lambda>x. x \<noteq> CHR ''>'') rest) then
                   (if list_all (\<lambda>x. x = CHR ''0'') (takeWhile (\<lambda>x. x \<noteq> CHR ''>'') rest)
                    then tcons [TGroup0] (parse_template (tl (dropWhile (\<lambda>x. x \<noteq> CHR ''>'') rest)))
                    else Inl ReError)
                 else if is_identifier (takeWhile (\<lambda>x. x \<noteq> CHR ''>'') rest) then
                   (if tl (dropWhile (\<lambda>x. x \<noteq> CHR ''>'') rest) = [backslash]
                    then Inl ReError else Inl IndexError)
                 else Inl ReError)
          else if d = CHR ''0'' then
            (let n = length (takeWhile is_octdigit (take 2 ds))
             in tcons [TLit (char_of (oct_val (take n ds) mod 256))] (parse_template (drop n ds)))
          else if is_digit d then
            (if is_octdigit d \<and> length (takeWhile is_octdigit (take 2 ds)) = 2 then
               (if oct_val (d # take 2 ds) > 255 then Inl ReError
                else tcons [TLit (char_of (oct_val (d # take 2 ds)))] (parse_template (drop 2 ds)))
             else Inl ReError)
          else (case escapes d of
                  Some e \<Rightarrow> tcons [TLit e] (parse_template ds)
                | None \<Rightarrow>
                    if is_ascii_letter d then Inl ReError
                    else tcons [TLit backslash, TLit d] (parse_template ds))))"
  by pat_completeness auto
termination
proof (relation "measure length")
  fix c :: char and cs ds rest :: string and d l :: char
  have "length (dropWhile (\<lambda>x. x \<noteq> CHR ''>'') rest) \<le> length rest"
    by (rule length_dropWhile_le)
  then show "(tl (dropWhile (\<lambda>x. x \<noteq> CHR ''>'') rest), c # cs) \<in> measure length"
    if "cs = d # ds" "ds = l # rest"
    using that by simp
qed simp_all

definition expand_template :: "tpiece list \<Rightarrow> string \<Rightarrow> string" where
  "expand_template tpl m = concat (map (\<lambda>p. case p of TLit c \<Rightarrow> [c] | TGroup0 \<Rightarrow> m) tpl)"

text \<open>\<^verbatim>\<open>\b\<close> between two neighbouring characters (\<open>None\<close> at either end of the text).\<close>

definition is_word_opt :: "char option \<Rightarrow> bool" where
  "is_word_opt x = (case x of None \<Rightarrow> False | Some c \<Rightarrow> is_word_char c)"

definition word_boundary :: "char option \<Rightarrow> char option \<Rightarrow> bool" where
  "word_boundary before after \<longleftrightarrow> is_word_opt before \<noteq> is_word_opt after"

definition next_char :: "string \<Rightarrow> char option" where
  "next_char s = (case s of [] \<Rightarrow> None | c # _ \<Rightarrow> Some c)"

text \<open>The literal \<open>lit\<close> matches, ignoring case, at the head of \<open>text\<close>.\<close>

definition ci_prefix :: "string \<Rightarrow> string \<Rightarrow> bool" where
  "ci_prefix lit text \<longleftrightarrow>
     length lit \<le> length text \<and> str_lower (take (length lit) text) = str_lower lit"

text \<open>The pattern matches at the head of \<open>text\<close>, \<open>prev\<close> being the character before it;
  \<open>wb\<close> says whether the literal stands between two \<^verbatim>\<open>\b\<close>.\<close>

definition match_here :: "bool \<Rightarrow> string \<Rightarrow> char option \<Rightarrow> string \<Rightarrow> bool" where
  "match_here wb lit prev text \<longleftrightarrow>
     lit \<noteq> [] \<and> ci_prefix lit text \<and>
     (if wb then
        word_boundary prev (next_char text) \<and>
        word_boundary (Some (last (take (length lit) text))) (next_char (drop (length lit) text))
      else True)"

text \<open>
  The scan of \<^verbatim>\<open>re.sub\<close>: leftmost matches, none overlapping, each replaced by what
  the replacement function returns for it. The function is given the matched text and
  its own state, which it returns updated (a callable object may count its calls).
\<close>

function re_sub_scan ::
  "bool \<Rightarrow> string \<Rightarrow> ('st \<Rightarrow> string \<Rightarrow> string \<times> 'st) \<Rightarrow> 'st \<Rightarrow> char option \<Rightarrow> string \<Rightarrow> string"
where
  "re_sub_scan wb lit repl st prev [] = []"
| "re_sub_scan wb lit repl st prev (c # cs) =
     (if match_here wb lit prev (c # cs) then
        fst (repl st (take (length lit) (c # cs))) @
        re_sub_scan wb lit repl (snd (repl st (take (length lit) (c # cs))))
          (Some (last (take (length lit) (c # cs)))) (drop (length lit) (c # cs))
      else c # re_sub_scan wb lit repl st (Some c) cs)"
  by pat_completeness auto
termination
  by (relation "measure (\<lambda>(wb, lit, repl, st, prev, text). length text)")
     (auto simp add: match_here_def)

text \<open>\<^verbatim>\<open>re.sub(pattern, repl, string, flags=re.IGNORECASE)\<close> with a string and with a
  callable replacement.\<close>

definition re_sub :: "bool \<Rightarrow> string \<Rightarrow> string \<Rightarrow> string \<Rightarrow> py_exn + string" where
  "re_sub wb lit repl text =
     (case parse_template repl of
        Inl e \<Rightarrow> Inl e
      | Inr tpl \<Rightarrow> Inr (re_sub_scan wb lit (\<lambda>st m. (expand_template tpl m, st)) () None text))"

definition re_sub_callable ::
  "bool \<Rightarrow> string \<Rightarrow> ('st \<Rightarrow> string \<Rightarrow> string \<times> 'st) \<Rightarrow> 'st \<Rightarrow> string \<Rightarrow> string" where
  "re_sub_callable wb lit repl st text = re_sub_scan wb lit repl st None text"

text \<open>\<^verbatim>\<open>try: ... except re.error: continue\<close> around one entry: the text stays as it was,
  any other exception leaves the loop.\<close>

definition except_re_error :: "string \<Rightarrow> py_exn + string \<Rightarrow> py_exn + string" where
  "except_re_error content r =
     (case r of Inl ReError \<Rightarrow> Inr content | Inl e \<Rightarrow> Inl e | Inr content' \<Rightarrow> Inr content')"

subsection \<open>Placeholder assigner (\<^verbatim>\<open>extract_entities_to_csv_data\<close>)\<close>

text \<open>
  A mapping entry is the pair \<^verbatim>\<open>[placeholder, real_entity]\<close>; a detection is
  \<^verbatim>\<open>(ent.text, ent.label_)\<close> of one element of \<^verbatim>\<open>doc.ents\<close>.
\<close>

type_synonym entry = "string \<times> string"

type_synonym detection = "string \<times> string"

definition OTHER_TYPE_SPACY_LABELS :: "string list" where
  "OTHER_TYPE_SPACY_LABELS =
     [''TIME'', ''PERCENT'', ''QUANTITY'', ''ORDINAL'', ''CARDINAL'', ''LANGUAGE'', ''LAW'']"

definition placeholder_prefix_map :: "string \<rightharpoonup> string" where
  "placeholder_prefix_map = map_of
     [(''PERSON'', ''person''), (''ORG'', ''org''), (''GPE'', ''place''), (''LOC'', ''place''),
      (''FAC'', ''place''), (''PRODUCT'', ''thing''), (''EVENT'', ''thing''),
      (''WORK_OF_ART'', ''thing''), (''LAW'', ''thing''), (''LANGUAGE'', ''thing'')]"

text \<open>
  The loop's variables. \<open>extracted_map\<close> is a Python dict from entity text to
  placeholder: its keys are unique and \<^verbatim>\<open>items()\<close> lists them in insertion order, so
  it is an association list that is only ever extended at the end by a key not in it.
\<close>

record extract_state =
  extracted_map :: "(string \<times> string) list"
  counts :: "string \<rightharpoonup> nat"

definition initial_counts :: "string \<rightharpoonup> nat" where
  "initial_counts = map_of
     [(''person'', 0), (''org'', 0), (''place'', 0), (''thing'', 0), (''misc'', 0)]"

text \<open>One iteration of \<^verbatim>\<open>for ent in doc.ents\<close> (\<^verbatim>\<open>Qtanon.py\<close>, lines 299 to 319).\<close>

definition extract_step :: "string list \<Rightarrow> extract_state \<Rightarrow> detection \<Rightarrow> extract_state" where
  "extract_step selected_spacy_labels st ent =
     (let ent_text = fst ent; ent_label = snd ent in
      if ent_label \<notin> set selected_spacy_labels \<and>
         \<not> (''OTHER_TYPES'' \<in> set selected_spacy_labels \<and> ent_label \<in> set OTHER_TYPE_SPACY_LABELS)
      then st
      else
        let entity_text = strip ent_text;
            label_prefix = dict_get placeholder_prefix_map ent_label ''misc''
        in
          if entity_text = [] \<or> length entity_text < 2 then st
          else
            let label_prefix =
                  (if isnumeric entity_text \<and>
                      label_prefix \<in> set [''person'', ''org'', ''place'', ''thing'']
                   then ''misc'' else label_prefix)
            in
              if entity_text \<notin> fst ` set (extracted_map st) then
                let n = dict_get (counts st) label_prefix 0 + 1;
                    base_placeholder = label_prefix @ ''_'' @ format_03d n
                in st\<lparr>extracted_map := extracted_map st @ [(entity_text, base_placeholder)],
                      counts := (counts st)(label_prefix \<mapsto> n)\<rparr>
              else st)"

definition extract_loop :: "string list \<Rightarrow> detection list \<Rightarrow> extract_state" where
  "extract_loop selected_spacy_labels ents =
     foldl (extract_step selected_spacy_labels)
       \<lparr>extracted_map = [], counts = initial_counts\<rparr> ents"

text \<open>
  The whole function. The recognizer is outside the program: \<open>nlp\<close> is what
  \<^verbatim>\<open>SpacyModelManager.get_model\<close> returns (\<open>None\<close>, or the model as the function from a
  text to its detections) and \<open>clean\<close> stands for \<^verbatim>\<open>clean_text_from_markdown\<close>.
  \<open>None\<close> as the result is Python's \<^verbatim>\<open>None\<close>.
\<close>

definition extract_entities_to_csv_data ::
  "(string \<Rightarrow> detection list) option \<Rightarrow> (string \<Rightarrow> string) \<Rightarrow> string \<Rightarrow> string list option
     \<Rightarrow> entry list option" where
  "extract_entities_to_csv_data nlp clean text_content selected_spacy_labels =
     (let selected = (case selected_spacy_labels of None \<Rightarrow> [''PERSON''] | Some ls \<Rightarrow> ls) in
      case nlp of
        None \<Rightarrow> None
      | Some model \<Rightarrow>
          let cleaned_text = clean text_content in
          if cleaned_text = [] \<or> strip cleaned_text = [] then None
          else Some (map (\<lambda>(entity, placeholder). (placeholder, entity))
                       (extracted_map (extract_loop selected (model cleaned_text)))))"

subsubsection \<open>The same function in \<^verbatim>\<open>fake-plates.py\<close>\<close>

definition target_labels_map :: "string \<rightharpoonup> string" where
  "target_labels_map = map_of
     [(''PERSON'', ''person''), (''ORG'', ''org''), (''GPE'', ''place''), (''LOC'', ''place''),
      (''FAC'', ''place''), (''NORP'', ''group''), (''EVENT'', ''event'')]"

definition fp_initial_counts :: "string \<rightharpoonup> nat" where
  "fp_initial_counts = map_of
     [(''person'', 0), (''org'', 0), (''place'', 0), (''group'', 0), (''event'', 0), (''misc'', 0)]"

text \<open>One iteration (\<^verbatim>\<open>fake-plates.py\<close>, lines 99 to 118). \<^verbatim>\<open>counts[label_prefix]\<close> raises
  \<^verbatim>\<open>KeyError\<close> on a missing key.\<close>

definition fp_extract_step :: "extract_state \<Rightarrow> detection \<Rightarrow> py_exn + extract_state" where
  "fp_extract_step st ent =
     (let ent_text = fst ent; ent_label = snd ent;
          entity_text = strip ent_text;
          label_prefix = dict_get target_labels_map ent_label ''misc''
      in
        if entity_text = [] \<or> length entity_text < 2 then Inr st
        else if isnumeric entity_text \<and>
                ent_label \<notin> set [''MONEY'', ''DATE'', ''TIME'', ''PERCENT'', ''QUANTITY'',
                                    ''ORDINAL'', ''CARDINAL'']
        then Inr st
        else if entity_text \<notin> fst ` set (extracted_map st) then
          (case counts st label_prefix of
             None \<Rightarrow> Inl KeyError
           | Some k \<Rightarrow>
               Inr (st\<lparr>extracted_map :=
                          extracted_map st @ [(entity_text, label_prefix @ ''_'' @ dec (k + 1))],
                        counts := (counts st)(label_prefix \<mapsto> k + 1)\<rparr>))
        else Inr st)"

fun fp_extract_from :: "extract_state \<Rightarrow> detection list \<Rightarrow> py_exn + extract_state" where
  "fp_extract_from st [] = Inr st"
| "fp_extract_from st (ent # ents) =
     (case fp_extract_step st ent of Inl e \<Rightarrow> Inl e | Inr st' \<Rightarrow> fp_extract_from st' ents)"

definition fp_extract_loop :: "detection list \<Rightarrow> py_exn + extract_state" where
  "fp_extract_loop ents = fp_extract_from \<lparr>extracted_map = [], counts = fp_initial_counts\<rparr> ents"

definition fp_extract_entities_to_csv_data ::
  "(string \<Rightarrow> detection list) option \<Rightarrow> (string \<Rightarrow> string) \<Rightarrow> string
     \<Rightarrow> py_exn + entry list option" where
  "fp_extract_entities_to_csv_data nlp clean text_content =
     (case nlp of
        None \<Rightarrow> Inr None
      | Some model \<Rightarrow>
          let cleaned_text = clean text_content in
          if cleaned_text = [] \<or> strip cleaned_text = [] then Inr None
          else (case fp_extract_loop (model cleaned_text) of
                  Inl e \<Rightarrow> Inl e
                | Inr st \<Rightarrow>
                    Inr (Some (map (\<lambda>(entity, placeholder). (placeholder, entity))
                                 (extracted_map st)))))"

subsection \<open>Anonymization (\<^verbatim>\<open>anonymize_text_logic\<close>)\<close>

definition bold :: "string \<Rightarrow> string" where
  "bold base_placeholder = ''**'' @ base_placeholder @ ''**''"

text \<open>One iteration of the loop over the entries (lines 332 to 342).\<close>

definition anonymize_entry :: "string list \<Rightarrow> string \<Rightarrow> entry \<Rightarrow> py_exn + string" where
  "anonymize_entry exclusions_lower content e =
     (let base_placeholder = fst e; entity_to_find = snd e in
      if str_lower entity_to_find \<in> set exclusions_lower then Inr content
      else
        let bold_placeholder = bold base_placeholder in
        if entity_to_find = [] then Inr content
        else except_re_error content (re_sub True entity_to_find bold_placeholder content))"

fun anonymize_loop :: "string list \<Rightarrow> string \<Rightarrow> entry list \<Rightarrow> py_exn + string" where
  "anonymize_loop exclusions_lower content [] = Inr content"
| "anonymize_loop exclusions_lower content (e # es) =
     (case anonymize_entry exclusions_lower content e of
        Inl x \<Rightarrow> Inl x
      | Inr content' \<Rightarrow> anonymize_loop exclusions_lower content' es)"

text \<open>\<^verbatim>\<open>xs.sort(key=lambda x: len(key(x)), reverse=True)\<close>: a stable sort, so entries of equal
  length keep their order.\<close>

definition sort_by_len_desc :: "('a \<Rightarrow> string) \<Rightarrow> 'a list \<Rightarrow> 'a list" where
  "sort_by_len_desc key xs = sort_key (\<lambda>x. - int (length (key x))) xs"

text \<open>The function. The second component is \<^verbatim>\<open>replacements_data\<close>, the caller's list, as
  the call leaves it.\<close>

definition anonymize_text_logic ::
  "string \<Rightarrow> entry list \<Rightarrow> string list option \<Rightarrow> (py_exn + string) \<times> entry list" where
  "anonymize_text_logic content replacements_data exclusions =
     (let exclusions = (case exclusions of None \<Rightarrow> [] | Some ex \<Rightarrow> ex);
          exclusions_lower = map str_lower exclusions;
          replacements_data = sort_by_len_desc snd replacements_data
      in (anonymize_loop exclusions_lower content replacements_data, replacements_data))"

text \<open>\<^verbatim>\<open>anonymize_text\<close> of \<^verbatim>\<open>fake-plates.py\<close> (lines 129 to 172) is the same statements with
  \<^verbatim>\<open>print\<close> for \<^verbatim>\<open>log_callback\<close>.\<close>

definition anonymize_text ::
  "string \<Rightarrow> entry list \<Rightarrow> string list option \<Rightarrow> (py_exn + string) \<times> entry list" where
  "anonymize_text content replacements_data exclusions =
     (let exclusions = (case exclusions of None \<Rightarrow> [] | Some ex \<Rightarrow> ex);
          exclusions_lower = map str_lower exclusions;
          replacements_data = sort_by_len_desc snd replacements_data
      in (anonymize_loop exclusions_lower content replacements_data, replacements_data))"

subsection \<open>De-anonymization (\<^verbatim>\<open>de_anonymize_text_logic\<close>)\<close>

record PersonNameReplacer =
  full_name :: string
  last_name :: string
  count :: nat

text \<open>\<^verbatim>\<open>PersonNameReplacer.__call__\<close>: the value returned and the object after the call.\<close>

definition PersonNameReplacer_call ::
  "PersonNameReplacer \<Rightarrow> string \<Rightarrow> string \<times> PersonNameReplacer" where
  "PersonNameReplacer_call self matchobj =
     (let self = self\<lparr>count := count self + 1\<rparr>
      in (if count self = 1 then full_name self else last_name self, self))"

text \<open>One iteration of the loop over the entries (lines 356 to 378).\<close>

definition de_anonymize_entry :: "string \<Rightarrow> entry \<Rightarrow> py_exn + string" where
  "de_anonymize_entry content e =
     (let base_placeholder = fst e; real_entity = snd e in
      if base_placeholder = [] then Inr content
      else
        let bold_placeholder_pattern = bold base_placeholder in
        except_re_error content
          (if startswith base_placeholder ''person_'' then
             (let name_parts = split real_entity;
                  last_name = (if name_parts \<noteq> [] then last name_parts else real_entity)
              in
                if name_parts = [] \<or> length name_parts = 1
                then re_sub False bold_placeholder_pattern real_entity content
                else Inr (re_sub_callable False bold_placeholder_pattern PersonNameReplacer_call
                            \<lparr>full_name = real_entity, last_name = last_name, count = 0\<rparr> content))
           else if startswith_any base_placeholder
                     [''org_'', ''place_'', ''thing_'', ''misc_'', ''group_'']
           then re_sub False bold_placeholder_pattern real_entity content
           else re_sub False bold_placeholder_pattern real_entity content))"

fun de_anonymize_loop :: "string \<Rightarrow> entry list \<Rightarrow> py_exn + string" where
  "de_anonymize_loop content [] = Inr content"
| "de_anonymize_loop content (e # es) =
     (case de_anonymize_entry content e of
        Inl x \<Rightarrow> Inl x
      | Inr content' \<Rightarrow> de_anonymize_loop content' es)"

definition de_anonymize_text_logic ::
  "string \<Rightarrow> entry list \<Rightarrow> (py_exn + string) \<times> entry list" where
  "de_anonymize_text_logic content replacements_data =
     (let replacements_data = sort_by_len_desc fst replacements_data
      in (de_anonymize_loop content replacements_data, replacements_data))"

subsection \<open>Mapping reader (\<^verbatim>\<open>read_csv_mapping_for_gui\<close>)\<close>

text \<open>
  The file system and the \<^verbatim>\<open>csv\<close> module are outside the program. A file is what
  opening and reading it gives: it is not there, it cannot be opened, or it is a
  sequence of events, each a row (its columns) or a failure while reading (a decode
  error, a \<^verbatim>\<open>csv.Error\<close>), after which nothing more is read.
\<close>

datatype read_event = Row "string list" | ReadFailure

datatype csv_file = NotFound | OpenFailure | Opened "read_event list"

datatype log_msg =
    HeaderSkipped
  | WarnEmptyAfterHeader
  | WarnSkipEmpty nat
  | WarnSkipInsufficient nat
  | WarnNoValidRows
  | ErrorNotFound
  | ErrorReading

text \<open>\<^verbatim>\<open>for i, row in enumerate(reader)\<close>, with \<^verbatim>\<open>replacements_map\<close> and the messages
  logged so far; the first component is \<open>None\<close> when reading raised.\<close>

fun read_rows ::
  "bool \<Rightarrow> nat \<Rightarrow> entry list \<Rightarrow> log_msg list \<Rightarrow> read_event list
     \<Rightarrow> entry list option \<times> log_msg list" where
  "read_rows has_header i replacements_map logs [] = (Some replacements_map, logs)"
| "read_rows has_header i replacements_map logs (ReadFailure # evs) = (None, logs)"
| "read_rows has_header i replacements_map logs (Row row # evs) =
     (let rn = (if has_header then i + 2 else i + 1) in
      if length row \<ge> 2 then
        (let col1 = strip (row ! 0); col2 = strip (row ! 1) in
         if col1 = [] \<or> col2 = []
         then read_rows has_header (i + 1) replacements_map (logs @ [WarnSkipEmpty rn]) evs
         else read_rows has_header (i + 1) (replacements_map @ [(col1, col2)]) logs evs)
      else read_rows has_header (i + 1) replacements_map (logs @ [WarnSkipInsufficient rn]) evs)"

text \<open>The function: its return value (\<open>None\<close> is Python's \<^verbatim>\<open>None\<close>) and what it logged.\<close>

definition read_csv_mapping_for_gui ::
  "csv_file \<Rightarrow> bool \<Rightarrow> entry list option \<times> log_msg list" where
  "read_csv_mapping_for_gui csv_path has_header =
     (case csv_path of
        NotFound \<Rightarrow> (None, [ErrorNotFound])
      | OpenFailure \<Rightarrow> (None, [ErrorReading])
      | Opened evs \<Rightarrow>
          (case (if has_header then
                   (case evs of
                      [] \<Rightarrow> Some ([WarnEmptyAfterHeader], [])
                    | Row header # rest \<Rightarrow> Some ([HeaderSkipped], rest)
                    | ReadFailure # rest \<Rightarrow> None)
                 else Some ([], evs)) of
             None \<Rightarrow> (None, [ErrorReading])
           | Some (log0, body) \<Rightarrow>
               (case read_rows has_header 0 [] log0 body of
                  (None, logs) \<Rightarrow> (None, logs @ [ErrorReading])
                | (Some replacements_map, logs) \<Rightarrow>
                    (Some replacements_map,
                     logs @ (if replacements_map = [] then [WarnNoValidRows] else [])))))"

subsection \<open>What the claims about the mapping reader speak of\<close>

text \<open>
  These follow the specification's words, not the code: a row is kept when it has at
  least two columns and neither of the first two is empty after trimming; the entry
  it gives is the two trimmed columns; the data rows of a file are those after the
  header, when there is one; a file is readable when it can be opened and read to its
  end.
\<close>

definition valid_row :: "string list \<Rightarrow> bool" where
  "valid_row row \<longleftrightarrow> length row \<ge> 2 \<and> strip (row ! 0) \<noteq> [] \<and> strip (row ! 1) \<noteq> []"

definition row_entry :: "string list \<Rightarrow> entry" where
  "row_entry row = (strip (row ! 0), strip (row ! 1))"

fun rows_of :: "read_event list \<Rightarrow> string list list" where
  "rows_of [] = []"
| "rows_of (Row r # evs) = r # rows_of evs"
| "rows_of (ReadFailure # evs) = rows_of evs"

definition data_events :: "bool \<Rightarrow> read_event list \<Rightarrow> read_event list" where
  "data_events has_header evs = (if has_header then tl evs else evs)"

definition readable :: "csv_file \<Rightarrow> bool" where
  "readable f = (case f of Opened evs \<Rightarrow> ReadFailure \<notin> set evs | _ \<Rightarrow> False)"

fun is_skip_warning :: "log_msg \<Rightarrow> bool" where
  "is_skip_warning (WarnSkipEmpty n) = True"
| "is_skip_warning (WarnSkipInsufficient n) = True"
| "is_skip_warning _ = False"

subsection \<open>Notions used in the proofs about placeholders\<close>

text \<open>The number a digit string stands for; the invariant of the assigner's loop (every
  placeholder so far is a category without underscore, an underscore and a formatted
  number no larger than that category's counter; placeholders and entity texts are
  pairwise distinct); and the keys \<^verbatim>\<open>fake-plates.py\<close> indexes \<^verbatim>\<open>counts\<close> with.\<close>

definition digit_val :: "char \<Rightarrow> nat" where
  "digit_val c = (of_char c :: nat) - 48"

definition undec :: "string \<Rightarrow> nat" where
  "undec s = foldl (\<lambda>v d. 10 * v + digit_val d) 0 s"

definition placeholders_ok :: "(nat \<Rightarrow> string) \<Rightarrow> extract_state \<Rightarrow> bool" where
  "placeholders_ok fmt st \<longleftrightarrow>
     (\<forall>x \<in> set (extracted_map st). \<exists>pre n.
        snd x = pre @ ''_'' @ fmt n \<and> CHR ''_'' \<notin> set pre \<and> n \<le> dict_get (counts st) pre 0) \<and>
     distinct (map snd (extracted_map st)) \<and> distinct (map fst (extracted_map st))"

definition fp_keys_ok :: "extract_state \<Rightarrow> bool" where
  "fp_keys_ok st \<longleftrightarrow> (\<forall>l. counts st (dict_get target_labels_map l ''misc'') \<noteq> None)"

subsection \<open>What the claims about occurrences speak of\<close>

text \<open>
  These follow the specification's words. An occurrence (ignoring case) of a pattern
  somewhere in a text; a text cut at its occurrences in document order, as
  \<open>s\<^sub>1 m\<^sub>1 s\<^sub>2 m\<^sub>2 \<dots> s\<^sub>n m\<^sub>n tail\<close>, where each \<open>m\<^sub>i\<close> is the pattern up to case, no
  occurrence starts earlier in \<open>s\<^sub>i m\<^sub>i\<close>, and \<open>tail\<close> has none; the text such pieces
  make; and that text with the \<open>i\<close>-th occurrence replaced by the \<open>i\<close>-th string of a
  list.
\<close>

fun occurs_ci :: "string \<Rightarrow> string \<Rightarrow> bool" where
  "occurs_ci pat [] = ci_prefix pat []"
| "occurs_ci pat (c # cs) = (ci_prefix pat (c # cs) \<or> occurs_ci pat cs)"

definition splits_at :: "string \<Rightarrow> (string \<times> string) list \<Rightarrow> string \<Rightarrow> bool" where
  "splits_at pat pairs tail \<longleftrightarrow>
     list_all (\<lambda>sm. str_lower (snd sm) = str_lower pat \<and>
                    \<not> occurs_ci pat (fst sm @ butlast (snd sm))) pairs \<and>
     \<not> occurs_ci pat tail"

definition joined :: "(string \<times> string) list \<Rightarrow> string \<Rightarrow> string" where
  "joined pairs tail = concat (map (\<lambda>sm. fst sm @ snd sm) pairs) @ tail"

definition restored :: "(string \<times> string) list \<Rightarrow> string list \<Rightarrow> string \<Rightarrow> string" where
  "restored pairs rs tail = concat (map (\<lambda>(sm, r). fst sm @ r) (zip pairs rs)) @ tail"

text \<open>For the proofs: the pieces with each occurrence replaced by what a replacement
  function returns for it, its state threaded from one occurrence to the next.\<close>

fun replace_pairs ::
  "('st \<Rightarrow> string \<Rightarrow> string \<times> 'st) \<Rightarrow> 'st \<Rightarrow> (string \<times> string) list \<Rightarrow> string" where
  "replace_pairs repl st [] = []"
| "replace_pairs repl st (sm # ps) =
     fst sm @ fst (repl st (snd sm)) @ replace_pairs repl (snd (repl st (snd sm))) ps"

subsection \<open>What the claim about the round trip speaks of\<close>

text \<open>
  The pattern anonymization builds for a real entity \<open>e\<close> is \<open>e\<close> between two \<^verbatim>\<open>\b\<close>, matched
  ignoring case. \<open>exact_case e None t\<close>: at every position of \<open>t\<close> where that pattern matches,
  the text has \<open>e\<close> character for character. \<open>count_matches e None t\<close>: the number of positions
  of \<open>t\<close> where that pattern matches. (The second argument is the character before the text,
  \<open>None\<close> at its start.)
\<close>

fun exact_case :: "string \<Rightarrow> char option \<Rightarrow> string \<Rightarrow> bool" where
  "exact_case e pv [] = True"
| "exact_case e pv (c # cs) =
     ((if match_here True e pv (c # cs) then take (length e) (c # cs) = e else True) \<and>
      exact_case e (Some c) cs)"

fun count_matches :: "string \<Rightarrow> char option \<Rightarrow> string \<Rightarrow> nat" where
  "count_matches e pv [] = 0"
| "count_matches e pv (c # cs) =
     (if match_here True e pv (c # cs) then 1 else 0) + count_matches e (Some c) cs"

text \<open>
  The conditions under which the round trip is the identity. An entry is fit for a text
  \<open>T\<close> and a list \<open>E\<close> when
  \<^item> its placeholder is a non-empty string of word characters and does not stand in \<open>T\<close>,
    ignoring case, directly between two asterisks;
  \<^item> its real entity is non-empty, has neither \<^verbatim>\<open>*\<close> nor a backslash, and is not, ignoring
    case, a placeholder of \<open>E\<close>;
  \<^item> if the real entity starts and ends with a word character: wherever its pattern
    matches in \<open>T\<close> the text has the entity exactly as the entry writes it, and for a
    \<^verbatim>\<open>person_\<close> entry of two or more tokens the pattern matches at most once in \<open>T\<close>;
  \<^item> otherwise: its pattern matches nowhere in \<open>T\<close>.

  The list is fit when every entry is and the placeholders are pairwise distinct,
  ignoring case.
\<close>

definition word_ended :: "string \<Rightarrow> bool" where
  "word_ended e \<longleftrightarrow> e \<noteq> [] \<and> is_word_char (hd e) \<and> is_word_char (last e)"

definition entry_ok :: "string \<Rightarrow> entry list \<Rightarrow> entry \<Rightarrow> bool" where
  "entry_ok T E pe \<longleftrightarrow>
     fst pe \<noteq> [] \<and> list_all is_word_char (fst pe) \<and>
     \<not> occurs_ci (CHR ''*'' # fst pe @ ''*'') T \<and>
     snd pe \<noteq> [] \<and> CHR ''*'' \<notin> set (snd pe) \<and> backslash \<notin> set (snd pe) \<and>
     list_all (\<lambda>pe'. str_lower (snd pe) \<noteq> str_lower (fst pe')) E \<and>
     (if word_ended (snd pe) then
        exact_case (snd pe) None T \<and>
        (if startswith (fst pe) ''person_'' \<and> 2 \<le> length (split (snd pe))
         then count_matches (snd pe) None T \<le> 1 else True)
      else count_matches (snd pe) None T = 0)"

definition round_trip_ok :: "string \<Rightarrow> entry list \<Rightarrow> bool" where
  "round_trip_ok T E \<longleftrightarrow>
     distinct (map (\<lambda>pe. str_lower (fst pe)) E) \<and> list_all (entry_ok T E) E"

subsection \<open>Notions used in the proof of the round trip\<close>

text \<open>
  An intermediate text is read as a list of items: a literal character of the original text, or
  a chunk \<open>K p e\<close> that stands for the bolded placeholder \<open>p\<close> in the anonymized text and for the
  real entity \<open>e\<close> in the original. \<open>render_a\<close> is the text the loops work on, \<open>render_o\<close> the
  original text. \<open>good\<close> is the invariant of both loops: a chunk never follows a word character
  or another chunk directly, and no word character follows a chunk directly. \<open>restore\<close> is the
  effect of one \<^verbatim>\<open>re.sub\<close> of the restoration loop on the items, \<open>restore_const\<close> the same for
  the replacement by the real entity.
\<close>

datatype item = L char | K string string

fun render_a :: "item list \<Rightarrow> string" where
  "render_a [] = []"
| "render_a (L c # r) = c # render_a r"
| "render_a (K p e # r) = bold p @ render_a r"

fun render_o :: "item list \<Rightarrow> string" where
  "render_o [] = []"
| "render_o (L c # r) = c # render_o r"
| "render_o (K p e # r) = e @ render_o r"

datatype ctx = Free | AfterWord | AfterChunk

definition after_char :: "char \<Rightarrow> ctx" where
  "after_char c = (if is_word_char c then AfterWord else Free)"

fun good :: "ctx \<Rightarrow> item list \<Rightarrow> bool" where
  "good cx [] = True"
| "good cx (L c # r) =
     ((if cx = AfterChunk then \<not> is_word_char c else True) \<and> good (after_char c) r)"
| "good cx (K p e # r) = (cx = Free \<and> p \<noteq> [] \<and> list_all is_word_char p \<and> good AfterChunk r)"

fun chunks :: "item list \<Rightarrow> (string \<times> string) set" where
  "chunks [] = {}"
| "chunks (L c # r) = chunks r"
| "chunks (K p e # r) = insert (p, e) (chunks r)"

fun restore ::
  "string \<Rightarrow> ('st \<Rightarrow> string \<Rightarrow> string \<times> 'st) \<Rightarrow> 'st \<Rightarrow> item list \<Rightarrow> item list" where
  "restore p repl st [] = []"
| "restore p repl st (L c # r) = L c # restore p repl st r"
| "restore p repl st (K p' e' # r) =
     (if str_lower p' = str_lower p
      then map L (fst (repl st (bold p'))) @ restore p repl (snd (repl st (bold p'))) r
      else K p' e' # restore p repl st r)"

fun restore_const :: "string \<Rightarrow> string \<Rightarrow> item list \<Rightarrow> item list" where
  "restore_const p e [] = []"
| "restore_const p e (L c # r) = L c # restore_const p e r"
| "restore_const p e (K p' e' # r) =
     (if str_lower p' = str_lower p then map L e @ restore_const p e r
      else K p' e' # restore_const p e r)"

fun count_chunks :: "string \<Rightarrow> item list \<Rightarrow> nat" where
  "count_chunks p [] = 0"
| "count_chunks p (L c # r) = count_chunks p r"
| "count_chunks p (K p' e' # r) =
     (if str_lower p' = str_lower p then 1 else 0) + count_chunks p r"

section \<open>Properties\<close>

subsection \<open>The in-place sort\<close>

lemma sort_by_len_desc_sorted:
  "sorted_wrt (\<lambda>a b. length (key b) \<le> length (key a)) (sort_by_len_desc key xs)"
proof -
  have "sorted (map (\<lambda>x. - int (length (key x))) (sort_key (\<lambda>x. - int (length (key x))) xs))"
    by (rule sorted_sort_key)
  then show ?thesis
    by (simp add: sort_by_len_desc_def sorted_map)
qed

lemma sort_by_len_desc_mset: "mset (sort_by_len_desc key xs) = mset xs"
  by (simp add: sort_by_len_desc_def)

lemma sort_by_len_desc_filter:
  "filter P (sort_by_len_desc key xs) = sort_by_len_desc key (filter P xs)"
  by (simp add: sort_by_len_desc_def filter_sort)

lemma sort_by_len_desc_longer_first:
  assumes "i < length (sort_by_len_desc key xs)" and "j < length (sort_by_len_desc key xs)"
    and "length (key (sort_by_len_desc key xs ! j)) < length (key (sort_by_len_desc key xs ! i))"
  shows "i < j"
proof (rule ccontr)
  assume "\<not> i < j"
  with assms(3) have "j < i"
    by (cases "i = j") auto
  from sorted_wrt_nth_less [OF sort_by_len_desc_sorted [of key xs] this assms(1)]
  have "length (key (sort_by_len_desc key xs ! i)) \<le> length (key (sort_by_len_desc key xs ! j))" .
  with assms(3) show False by simp
qed

lemma fst_anonymize_text_logic:
  "fst (anonymize_text_logic content data exclusions) =
     anonymize_loop (map str_lower (case exclusions of None \<Rightarrow> [] | Some ex \<Rightarrow> ex)) content
       (sort_by_len_desc snd data)"
  by (simp add: anonymize_text_logic_def Let_def)

lemma snd_anonymize_text_logic:
  "snd (anonymize_text_logic content data exclusions) = sort_by_len_desc snd data"
  by (simp add: anonymize_text_logic_def Let_def)

lemma fst_de_anonymize_text_logic:
  "fst (de_anonymize_text_logic content data) =
     de_anonymize_loop content (sort_by_len_desc fst data)"
  by (simp add: de_anonymize_text_logic_def Let_def)

lemma snd_de_anonymize_text_logic:
  "snd (de_anonymize_text_logic content data) = sort_by_len_desc fst data"
  by (simp add: de_anonymize_text_logic_def Let_def)

text \<open>
  C9. Both functions sort the caller's list in place: whatever the text, the list the
  caller holds after the call is a permutation of the one passed in, in descending
  order of the length of the real entity (anonymization) or of the placeholder
  (de-anonymization), and for some lists that is not the order they were passed in.
\<close>

theorem caller_list_is_sorted_in_place:
  "mset (snd (anonymize_text_logic content data exclusions)) = mset data \<and>
   sorted_wrt (\<lambda>a b. length (snd b) \<le> length (snd a))
     (snd (anonymize_text_logic content data exclusions)) \<and>
   mset (snd (de_anonymize_text_logic content data)) = mset data \<and>
   sorted_wrt (\<lambda>a b. length (fst b) \<le> length (fst a))
     (snd (de_anonymize_text_logic content data)) \<and>
   snd (anonymize_text_logic content [(''org_001'', ''Acme''), (''person_001'', ''Jane Doe'')]
          exclusions)
     = [(''person_001'', ''Jane Doe''), (''org_001'', ''Acme'')] \<and>
   snd (de_anonymize_text_logic content [(''org_001'', ''Acme''), (''person_001'', ''Jane Doe'')])
     = [(''person_001'', ''Jane Doe''), (''org_001'', ''Acme'')]"
proof -
  have "sort_by_len_desc snd [(''org_001'', ''Acme''), (''person_001'', ''Jane Doe'')]
          = [(''person_001'', ''Jane Doe''), (''org_001'', ''Acme'')]"
    by (simp add: sort_by_len_desc_def)
  moreover
  have "sort_by_len_desc fst [(''org_001'', ''Acme''), (''person_001'', ''Jane Doe'')]
          = [(''person_001'', ''Jane Doe''), (''org_001'', ''Acme'')]"
    by (simp add: sort_by_len_desc_def)
  ultimately show ?thesis
    by (simp add: snd_anonymize_text_logic snd_de_anonymize_text_logic
        sort_by_len_desc_mset sort_by_len_desc_sorted)
qed

subsection \<open>Empty entry list\<close>

text \<open>
  C10. With an empty entry list both functions return the text they were given,
  whatever the text: anonymization with empty exclusions (passed as an empty list or
  left at the default), and de-anonymization.
\<close>

theorem empty_entry_list_returns_text:
  "anonymize_text_logic content [] (Some []) = (Inr content, []) \<and>
   anonymize_text_logic content [] None = (Inr content, []) \<and>
   de_anonymize_text_logic content [] = (Inr content, [])"
  by (simp add: anonymize_text_logic_def de_anonymize_text_logic_def sort_by_len_desc_def)

subsection \<open>Longest entity first\<close>

lemma anonymize_loop_foldl:
  "(case r of Inl x \<Rightarrow> Inl x | Inr c \<Rightarrow> anonymize_loop ex c es) =
     foldl (\<lambda>r e. case r of Inl x \<Rightarrow> Inl x | Inr c \<Rightarrow> anonymize_entry ex c e) r es"
proof (induction es arbitrary: r)
  case Nil
  show ?case by (simp split: sum.splits)
next
  case (Cons e es)
  show ?case
  proof (cases r)
    case (Inl x)
    have "foldl (\<lambda>r e. case r of Inl x \<Rightarrow> Inl x | Inr c \<Rightarrow> anonymize_entry ex c e) (Inl x) es' = Inl x"
      for es'
      by (induction es') simp_all
    with Inl show ?thesis by simp
  next
    case (Inr c)
    with Cons [of "anonymize_entry ex c e"] show ?thesis by simp
  qed
qed

lemma sort_two_longer_first:
  assumes "length (key y) < length (key x)"
  shows "sort_by_len_desc key [y, x] = [x, y]" "sort_by_len_desc key [x, y] = [x, y]"
  using assms by (simp_all add: sort_by_len_desc_def)

lemma anonymize_two:
  assumes "length e2 < length e1" "e2 \<noteq> []"
  shows "anonymize_loop [] content [(p1, e1), (p2, e2)] =
          (case except_re_error content (re_sub True e1 (bold p1) content) of
             Inl x \<Rightarrow> Inl x
           | Inr c \<Rightarrow> except_re_error c (re_sub True e2 (bold p2) c))"
proof -
  from assms have "e1 \<noteq> []" by auto
  with assms(2) show ?thesis
    by (simp add: anonymize_entry_def split: sum.splits)
qed

text \<open>
  C4. Anonymization is the loop body applied to the text once for each entry, one after
  the other, in the order of the list sorted by the length of the real entity: the
  sorted list holds the same entries, and in it an entry with a longer real entity comes
  before every entry with a shorter one (entries of equal length keep their order). For
  two entries, in whichever order they are passed, the longer real entity is substituted
  first and the shorter one is then substituted in the text that substitution gave. In
  \<^verbatim>\<open>John Smith is here\<close> with the entities \<^verbatim>\<open>Smith\<close> and \<^verbatim>\<open>John Smith\<close> the longer one is
  replaced whole and no \<^verbatim>\<open>Smith\<close> is left to be replaced on its own; in
  \<^verbatim>\<open>John Smith met Smith\<close> the remaining \<^verbatim>\<open>Smith\<close> is replaced afterwards.
\<close>

theorem longest_entity_first:
  "fst (anonymize_text_logic content data exclusions) =
     foldl (\<lambda>r e. case r of Inl x \<Rightarrow> Inl x
                   | Inr c \<Rightarrow> anonymize_entry
                       (map str_lower (case exclusions of None \<Rightarrow> [] | Some ex \<Rightarrow> ex)) c e)
       (Inr content) (sort_by_len_desc snd data) \<and>
   mset (sort_by_len_desc snd data) = mset data \<and>
   (\<forall>i j. i < length (sort_by_len_desc snd data) \<and> j < length (sort_by_len_desc snd data) \<and>
          length (snd (sort_by_len_desc snd data ! j)) < length (snd (sort_by_len_desc snd data ! i))
          \<longrightarrow> i < j) \<and>
   (length e2 < length e1 \<and> e2 \<noteq> [] \<longrightarrow>
      fst (anonymize_text_logic content [(p2, e2), (p1, e1)] None) =
        (case except_re_error content (re_sub True e1 (bold p1) content) of
           Inl x \<Rightarrow> Inl x
         | Inr c \<Rightarrow> except_re_error c (re_sub True e2 (bold p2) c)) \<and>
      fst (anonymize_text_logic content [(p1, e1), (p2, e2)] None) =
        fst (anonymize_text_logic content [(p2, e2), (p1, e1)] None)) \<and>
   fst (anonymize_text_logic ''John Smith is here''
          [(''person_001'', ''Smith''), (''person_002'', ''John Smith'')] None)
     = Inr ''**person_002** is here'' \<and>
   fst (anonymize_text_logic ''John Smith met Smith''
          [(''person_001'', ''Smith''), (''person_002'', ''John Smith'')] None)
     = Inr ''**person_002** met **person_001**''"
proof -
  have a: "fst (anonymize_text_logic content data exclusions) =
     foldl (\<lambda>r e. case r of Inl x \<Rightarrow> Inl x
                   | Inr c \<Rightarrow> anonymize_entry
                       (map str_lower (case exclusions of None \<Rightarrow> [] | Some ex \<Rightarrow> ex)) c e)
       (Inr content) (sort_by_len_desc snd data)"
    using anonymize_loop_foldl [where r = "Inr content"] by (simp add: fst_anonymize_text_logic)
  have b: "\<forall>i j. i < length (sort_by_len_desc snd data) \<and> j < length (sort_by_len_desc snd data) \<and>
          length (snd (sort_by_len_desc snd data ! j)) < length (snd (sort_by_len_desc snd data ! i))
          \<longrightarrow> i < j"
    using sort_by_len_desc_longer_first [of _ snd data] by blast
  have c: "fst (anonymize_text_logic content [(p2, e2), (p1, e1)] None) =
        (case except_re_error content (re_sub True e1 (bold p1) content) of
           Inl x \<Rightarrow> Inl x
         | Inr c \<Rightarrow> except_re_error c (re_sub True e2 (bold p2) c)) \<and>
      fst (anonymize_text_logic content [(p1, e1), (p2, e2)] None) =
        fst (anonymize_text_logic content [(p2, e2), (p1, e1)] None)"
    if h: "length e2 < length e1" "e2 \<noteq> []"
  proof -
    from h(1) have "length (snd (p2, e2)) < length (snd (p1, e1))" by simp
    from sort_two_longer_first [of snd, OF this]
    have s: "sort_by_len_desc snd [(p2, e2), (p1, e1)] = [(p1, e1), (p2, e2)]"
      "sort_by_len_desc snd [(p1, e1), (p2, e2)] = [(p1, e1), (p2, e2)]" .
    show ?thesis
      by (simp only: fst_anonymize_text_logic s option.case list.map anonymize_two [OF h])
  qed
  have d: "fst (anonymize_text_logic ''John Smith is here''
          [(''person_001'', ''Smith''), (''person_002'', ''John Smith'')] None)
     = Inr ''**person_002** is here''"
    by code_simp
  have e: "fst (anonymize_text_logic ''John Smith met Smith''
          [(''person_001'', ''Smith''), (''person_002'', ''John Smith'')] None)
     = Inr ''**person_002** met **person_001**''"
    by code_simp
  have m: "mset (sort_by_len_desc snd data) = mset data"
    by (rule sort_by_len_desc_mset)
  from c have c': "length e2 < length e1 \<and> e2 \<noteq> [] \<longrightarrow>
      fst (anonymize_text_logic content [(p2, e2), (p1, e1)] None) =
        (case except_re_error content (re_sub True e1 (bold p1) content) of
           Inl x \<Rightarrow> Inl x
         | Inr c \<Rightarrow> except_re_error c (re_sub True e2 (bold p2) c)) \<and>
      fst (anonymize_text_logic content [(p1, e1), (p2, e2)] None) =
        fst (anonymize_text_logic content [(p2, e2), (p1, e1)] None)"
    by (intro impI) (elim conjE)
  show ?thesis
    apply (intro conjI)
         apply (rule a)
        apply (rule m)
       apply (rule b)
      apply (rule c')
     apply (rule d)
    apply (rule e)
    done
qed

text \<open>The theorem at \<^verbatim>\<open>Smith and John Smith met Smith\<close>: the outcome is that of the two
  substitutions, \<^verbatim>\<open>John Smith\<close> first, whichever way the list is passed.\<close>

theorem longest_entity_first_witness:
  "length ''Smith'' < length ''John Smith'' \<and> ''Smith'' \<noteq> [] \<and>
   sort_by_len_desc snd [(''person_001'', ''Smith''), (''person_002'', ''John Smith'')]
     = [(''person_002'', ''John Smith''), (''person_001'', ''Smith'')] \<and>
   (0::nat) < 1 \<and>
   re_sub True ''John Smith'' (bold ''person_002'') ''Smith and John Smith met Smith''
     = Inr ''Smith and **person_002** met Smith'' \<and>
   re_sub True ''Smith'' (bold ''person_001'') ''Smith and **person_002** met Smith''
     = Inr ''**person_001** and **person_002** met **person_001**'' \<and>
   fst (anonymize_text_logic ''Smith and John Smith met Smith''
          [(''person_001'', ''Smith''), (''person_002'', ''John Smith'')] None)
     = Inr ''**person_001** and **person_002** met **person_001**'' \<and>
   fst (anonymize_text_logic ''Smith and John Smith met Smith''
          [(''person_002'', ''John Smith''), (''person_001'', ''Smith'')] None)
     = Inr ''**person_001** and **person_002** met **person_001**''"
proof -
  have s: "sort_by_len_desc snd [(''person_001'', ''Smith''), (''person_002'', ''John Smith'')]
     = [(''person_002'', ''John Smith''), (''person_001'', ''Smith'')]"
    by (simp add: sort_by_len_desc_def)
  have l: "length ''Smith'' < length ''John Smith''" "''Smith'' \<noteq> []"
    by simp_all
  have r1: "re_sub True ''John Smith'' (bold ''person_002'') ''Smith and John Smith met Smith''
     = Inr ''Smith and **person_002** met Smith''"
    by code_simp
  have r2: "re_sub True ''Smith'' (bold ''person_001'') ''Smith and **person_002** met Smith''
     = Inr ''**person_001** and **person_002** met **person_001**''"
    by code_simp
  note th = longest_entity_first
    [of "''Smith and John Smith met Smith''"
        "[(''person_001'', ''Smith''), (''person_002'', ''John Smith'')]" None
        "''Smith''" "''John Smith''" "''person_001''" "''person_002''"]
  from th [THEN conjunct2, THEN conjunct2, THEN conjunct2, THEN conjunct1] l
  have tu: "fst (anonymize_text_logic ''Smith and John Smith met Smith''
          [(''person_001'', ''Smith''), (''person_002'', ''John Smith'')] None) =
        (case except_re_error ''Smith and John Smith met Smith''
                (re_sub True ''John Smith'' (bold ''person_002'') ''Smith and John Smith met Smith'') of
           Inl x \<Rightarrow> Inl x
         | Inr c \<Rightarrow> except_re_error c (re_sub True ''Smith'' (bold ''person_001'') c)) \<and>
      fst (anonymize_text_logic ''Smith and John Smith met Smith''
          [(''person_002'', ''John Smith''), (''person_001'', ''Smith'')] None) =
        fst (anonymize_text_logic ''Smith and John Smith met Smith''
          [(''person_001'', ''Smith''), (''person_002'', ''John Smith'')] None)"
    by (elim impE) (rule conjI)
  note t = tu [THEN conjunct1] and u = tu [THEN conjunct2]
  have t': "fst (anonymize_text_logic ''Smith and John Smith met Smith''
          [(''person_001'', ''Smith''), (''person_002'', ''John Smith'')] None)
     = Inr ''**person_001** and **person_002** met **person_001**''"
    by (simp only: t r1 r2 except_re_error_def sum.case)
  have u': "fst (anonymize_text_logic ''Smith and John Smith met Smith''
          [(''person_002'', ''John Smith''), (''person_001'', ''Smith'')] None)
     = Inr ''**person_001** and **person_002** met **person_001**''"
    by (simp only: u t')
  have z: "(0::nat) < 1" by simp
  show ?thesis
    apply (intro conjI)
           apply (rule l(1))
          apply (rule l(2))
         apply (rule s)
        apply (rule z)
       apply (rule r1)
      apply (rule r2)
     apply (rule t')
    apply (rule u')
    done
qed

subsection \<open>Entries the anonymization loop skips\<close>

lemma anonymize_entry_empty: "anonymize_entry ex content (p, []) = Inr content"
  by (simp add: anonymize_entry_def)

lemma anonymize_loop_skip_empty:
  "anonymize_loop ex content (filter (\<lambda>e. snd e \<noteq> []) es) = anonymize_loop ex content es"
proof (induction es arbitrary: content)
  case Nil
  then show ?case by simp
next
  case (Cons e es)
  show ?case
  proof (cases "snd e = []")
    case True
    then have "anonymize_entry ex content e = Inr content"
      by (cases e) (simp add: anonymize_entry_empty)
    with True Cons show ?thesis by simp
  next
    case False
    with Cons show ?thesis by (simp split: sum.splits)
  qed
qed

text \<open>
  C5 (as amended). An entry whose real entity is the empty string is skipped: the
  result is the one the other entries alone give, and an entry list holding only such
  an entry returns the text as given, without raising. (The code tests the string as it
  is, it does not trim it: a real entity of white space only is not skipped.)
\<close>

theorem empty_entity_is_skipped:
  "fst (anonymize_text_logic content data exclusions) =
     fst (anonymize_text_logic content (filter (\<lambda>e. snd e \<noteq> []) data) exclusions) \<and>
   anonymize_text_logic content [(placeholder, [])] exclusions = (Inr content, [(placeholder, [])])"
proof -
  have "anonymize_text_logic content [(placeholder, [])] exclusions = (Inr content, [(placeholder, [])])"
    by (simp add: anonymize_text_logic_def sort_by_len_desc_def anonymize_entry_def)
  then show ?thesis
    by (simp add: fst_anonymize_text_logic anonymize_loop_skip_empty
        sort_by_len_desc_filter [symmetric])
qed

text \<open>
  C5 as stated fails for a real entity that is empty only after trimming: the single
  space is matched between two words and replaced.
\<close>

theorem whitespace_entity_is_not_skipped:
  "strip '' '' = [] \<and>
   fst (anonymize_text_logic ''a b'' [(''misc_001'', '' '')] None) = Inr ''a**misc_001**b''"
  by code_simp

lemma anonymize_loop_skip_excluded:
  "anonymize_loop ex content (filter (\<lambda>e. str_lower (snd e) \<notin> set ex) es) = anonymize_loop ex content es"
proof (induction es arbitrary: content)
  case Nil
  then show ?case by simp
next
  case (Cons e es)
  show ?case
  proof (cases "str_lower (snd e) \<in> set ex")
    case True
    then have "anonymize_entry ex content e = Inr content"
      by (simp add: anonymize_entry_def)
    with True Cons show ?thesis by simp
  next
    case False
    with Cons show ?thesis by (simp split: sum.splits)
  qed
qed

text \<open>
  C6 (as amended). An entry whose lowercased real entity is in the lowercased exclusion
  list is skipped: the result is the one the other entries alone give, and when every
  entry is excluded the text comes back as given. (Another entry that is not excluded
  can still match inside an occurrence of an excluded entity.)
\<close>

theorem excluded_entity_is_skipped:
  "fst (anonymize_text_logic content data (Some exclusions)) =
     fst (anonymize_text_logic content
            (filter (\<lambda>e. str_lower (snd e) \<notin> set (map str_lower exclusions)) data) (Some exclusions)) \<and>
   ((\<forall>e \<in> set data. str_lower (snd e) \<in> set (map str_lower exclusions)) \<longrightarrow>
      fst (anonymize_text_logic content data (Some exclusions)) = Inr content)"
proof -
  have a: "fst (anonymize_text_logic content data (Some exclusions)) =
     fst (anonymize_text_logic content
            (filter (\<lambda>e. str_lower (snd e) \<notin> set (map str_lower exclusions)) data) (Some exclusions))"
    by (simp only: fst_anonymize_text_logic sort_by_len_desc_filter [symmetric]
        anonymize_loop_skip_excluded option.case)
  have b: "fst (anonymize_text_logic content data (Some exclusions)) = Inr content"
    if "\<forall>e \<in> set data. str_lower (snd e) \<in> set (map str_lower exclusions)"
  proof -
    from that have "filter (\<lambda>e. str_lower (snd e) \<notin> set (map str_lower exclusions)) data = []"
      by (simp add: filter_empty_conv)
    with a show ?thesis
      by (simp add: anonymize_text_logic_def sort_by_len_desc_def)
  qed
  from a b show ?thesis by blast
qed

text \<open>
  C6 as stated fails when a second entry matches inside the excluded entity: the
  occurrence of the excluded \<^verbatim>\<open>John Smith\<close> does not stay as it was.
\<close>

theorem excluded_entity_occurrence_changed:
  "str_lower ''John Smith'' \<in> set (map str_lower [''john smith'']) \<and>
   fst (anonymize_text_logic ''John Smith''
          [(''person_001'', ''John Smith''), (''person_002'', ''Smith'')] (Some [''john smith'']))
     = Inr ''John **person_002**''"
  by code_simp

theorem excluded_entity_is_skipped_witness:
  "str_lower ''John Smith'' \<in> set (map str_lower [''john smith'']) \<and>
   fst (anonymize_text_logic ''Ask John Smith.'' [(''person_001'', ''John Smith'')] (Some [''john smith'']))
     = Inr ''Ask John Smith.'' \<and>
   str_lower (''Ren'' @ [CHR 0xE9] @ ''e'') \<in> set (map str_lower [''REN'' @ [CHR 0xC9] @ ''E'']) \<and>
   fst (anonymize_text_logic (''Ask REN'' @ [CHR 0xC9] @ ''E.'')
          [(''person_001'', ''Ren'' @ [CHR 0xE9] @ ''e'')] (Some [''REN'' @ [CHR 0xC9] @ ''E'']))
     = Inr (''Ask REN'' @ [CHR 0xC9] @ ''E.'')"
proof -
  have h: "\<forall>e \<in> set [(''person_001'', ''John Smith'')]. str_lower (snd e) \<in> set (map str_lower [''john smith''])"
    by code_simp
  from excluded_entity_is_skipped [of "''Ask John Smith.''" "[(''person_001'', ''John Smith'')]" "[''john smith'']"] h
  have a: "fst (anonymize_text_logic ''Ask John Smith.'' [(''person_001'', ''John Smith'')] (Some [''john smith'']))
     = Inr ''Ask John Smith.''" by blast
  have b: "str_lower ''John Smith'' \<in> set (map str_lower [''john smith''])" by code_simp
  have h': "\<forall>e \<in> set [(''person_001'', ''Ren'' @ [CHR 0xE9] @ ''e'')].
              str_lower (snd e) \<in> set (map str_lower [''REN'' @ [CHR 0xC9] @ ''E''])"
    by code_simp
  from excluded_entity_is_skipped [of "''Ask REN'' @ [CHR 0xC9] @ ''E.''"
      "[(''person_001'', ''Ren'' @ [CHR 0xE9] @ ''e'')]" "[''REN'' @ [CHR 0xC9] @ ''E'']"] h'
  have c: "fst (anonymize_text_logic (''Ask REN'' @ [CHR 0xC9] @ ''E.'')
          [(''person_001'', ''Ren'' @ [CHR 0xE9] @ ''e'')] (Some [''REN'' @ [CHR 0xC9] @ ''E'']))
     = Inr (''Ask REN'' @ [CHR 0xC9] @ ''E.'')" by blast
  have d: "str_lower (''Ren'' @ [CHR 0xE9] @ ''e'') \<in> set (map str_lower [''REN'' @ [CHR 0xC9] @ ''E''])"
    by code_simp
  from b a d c show ?thesis by (intro conjI)
qed


subsection \<open>The mapping reader\<close>

lemma read_rows_failure:
  "ReadFailure \<in> set evs \<Longrightarrow> fst (read_rows h i rm logs evs) = None"
  by (induction h i rm logs evs rule: read_rows.induct) (auto simp add: Let_def)

lemma read_rows_entries:
  "ReadFailure \<notin> set evs \<Longrightarrow>
   fst (read_rows h i rm logs evs) = Some (rm @ map row_entry (filter valid_row (rows_of evs)))"
  by (induction h i rm logs evs rule: read_rows.induct)
     (auto simp add: Let_def valid_row_def row_entry_def)

lemma read_rows_warnings:
  "ReadFailure \<notin> set evs \<Longrightarrow>
   length (filter is_skip_warning (snd (read_rows h i rm logs evs))) =
     length (filter is_skip_warning logs) + length (filter (\<lambda>r. \<not> valid_row r) (rows_of evs))"
  by (induction h i rm logs evs rule: read_rows.induct)
     (auto simp add: Let_def valid_row_def)

lemma read_rows_cases:
  obtains logs' where "read_rows h i rm logs evs = (None, logs')" "ReadFailure \<in> set evs"
  | logs' where "read_rows h i rm logs evs =
       (Some (rm @ map row_entry (filter valid_row (rows_of evs))), logs')"
      "ReadFailure \<notin> set evs"
      "length (filter is_skip_warning logs') =
         length (filter is_skip_warning logs) + length (filter (\<lambda>r. \<not> valid_row r) (rows_of evs))"
proof (cases "ReadFailure \<in> set evs")
  case True
  with read_rows_failure [OF True, of h i rm logs] that(1) show ?thesis
    by (cases "read_rows h i rm logs evs") auto
next
  case False
  with read_rows_entries [OF False, of h i rm logs] read_rows_warnings [OF False, of h i rm logs] that(2)
  show ?thesis
    by (cases "read_rows h i rm logs evs") auto
qed

lemma fst_read_csv_None: "fst (read_csv_mapping_for_gui f h) = None \<longleftrightarrow> \<not> readable f"
proof (cases f)
  case NotFound
  then show ?thesis by (simp add: read_csv_mapping_for_gui_def readable_def)
next
  case OpenFailure
  then show ?thesis by (simp add: read_csv_mapping_for_gui_def readable_def)
next
  case (Opened evs)
  show ?thesis
  proof (cases h)
    case False
    show ?thesis
      by (rule read_rows_cases [of h 0 "[]" "[]" evs])
         (simp_all add: Opened False read_csv_mapping_for_gui_def readable_def)
  next
    case True
    show ?thesis
    proof (cases evs)
      case Nil
      then show ?thesis by (simp add: Opened True read_csv_mapping_for_gui_def readable_def)
    next
      case (Cons ev rest)
      show ?thesis
      proof (cases ev)
        case ReadFailure
        then show ?thesis by (simp add: Opened True Cons read_csv_mapping_for_gui_def readable_def)
      next
        case (Row hdr)
        show ?thesis
          by (rule read_rows_cases [of h 0 "[]" "[HeaderSkipped]" rest])
             (simp_all add: Opened True Cons Row read_csv_mapping_for_gui_def readable_def)
      qed
    qed
  qed
qed

lemma read_csv_opened:
  assumes "ReadFailure \<notin> set evs"
  shows "\<exists>log0. filter is_skip_warning log0 = [] \<and>
           read_csv_mapping_for_gui (Opened evs) h =
             (case read_rows h 0 [] log0 (data_events h evs) of
                (None, logs) \<Rightarrow> (None, logs @ [ErrorReading])
              | (Some rm, logs) \<Rightarrow> (Some rm, logs @ (if rm = [] then [WarnNoValidRows] else [])))"
proof (cases h)
  case False
  then show ?thesis
    by (intro exI [of _ "[]"]) (simp add: read_csv_mapping_for_gui_def data_events_def)
next
  case True
  show ?thesis
  proof (cases evs)
    case Nil
    with True show ?thesis
      by (intro exI [of _ "[WarnEmptyAfterHeader]"])
         (simp add: read_csv_mapping_for_gui_def data_events_def)
  next
    case (Cons ev rest)
    with assms obtain hdr where "ev = Row hdr" by (cases ev) auto
    with True Cons show ?thesis
      by (intro exI [of _ "[HeaderSkipped]"])
         (simp add: read_csv_mapping_for_gui_def data_events_def)
  qed
qed

lemma read_csv_readable:
  assumes "ReadFailure \<notin> set evs"
  shows "fst (read_csv_mapping_for_gui (Opened evs) h) =
           Some (map row_entry (filter valid_row (rows_of (data_events h evs))))"
    and "length (filter is_skip_warning (snd (read_csv_mapping_for_gui (Opened evs) h))) =
           length (filter (\<lambda>r. \<not> valid_row r) (rows_of (data_events h evs)))"
    and "fst (read_csv_mapping_for_gui (Opened evs) h) = Some [] \<Longrightarrow>
           WarnNoValidRows \<in> set (snd (read_csv_mapping_for_gui (Opened evs) h))"
proof -
  from read_csv_opened [OF assms, of h] obtain log0 where
    log0: "filter is_skip_warning log0 = []" and
    eq: "read_csv_mapping_for_gui (Opened evs) h =
             (case read_rows h 0 [] log0 (data_events h evs) of
                (None, logs) \<Rightarrow> (None, logs @ [ErrorReading])
              | (Some rm, logs) \<Rightarrow> (Some rm, logs @ (if rm = [] then [WarnNoValidRows] else [])))"
    by blast
  from assms have nf: "ReadFailure \<notin> set (data_events h evs)"
    by (cases evs) (auto simp add: data_events_def)
  obtain logs' where rr: "read_rows h 0 [] log0 (data_events h evs) =
       (Some (map row_entry (filter valid_row (rows_of (data_events h evs)))), logs')"
    and cnt: "length (filter is_skip_warning logs') =
         length (filter (\<lambda>r. \<not> valid_row r) (rows_of (data_events h evs)))"
  proof (rule read_rows_cases [of h 0 "[]" log0 "data_events h evs"])
    fix l assume "ReadFailure \<in> set (data_events h evs)"
    with nf show ?thesis by simp
  next
    fix l
    assume "read_rows h 0 [] log0 (data_events h evs) =
       (Some ([] @ map row_entry (filter valid_row (rows_of (data_events h evs)))), l)"
      and "length (filter is_skip_warning l) =
         length (filter is_skip_warning log0) + length (filter (\<lambda>r. \<not> valid_row r) (rows_of (data_events h evs)))"
    with log0 that [of l] show ?thesis by simp
  qed
  have res: "read_csv_mapping_for_gui (Opened evs) h =
      (Some (map row_entry (filter valid_row (rows_of (data_events h evs)))),
       logs' @ (if map row_entry (filter valid_row (rows_of (data_events h evs))) = []
                then [WarnNoValidRows] else []))"
    unfolding eq rr by simp
  show "fst (read_csv_mapping_for_gui (Opened evs) h) =
           Some (map row_entry (filter valid_row (rows_of (data_events h evs))))"
    by (simp add: res)
  show "length (filter is_skip_warning (snd (read_csv_mapping_for_gui (Opened evs) h))) =
           length (filter (\<lambda>r. \<not> valid_row r) (rows_of (data_events h evs)))"
    by (simp add: res cnt)
  show "WarnNoValidRows \<in> set (snd (read_csv_mapping_for_gui (Opened evs) h))"
    if "fst (read_csv_mapping_for_gui (Opened evs) h) = Some []"
    using that by (simp add: res)
qed

text \<open>
  C7. The reader returns \<open>None\<close> exactly when the file cannot be read (it is missing,
  cannot be opened, or reading it fails). Of a file that can be read it returns, in
  order, the entries of the data rows that have two columns or more with neither of the
  first two empty after trimming; every other data row is dropped and a warning is
  logged for each; and when no entry is left the result is the empty list, with the
  warning that no valid row was found. One single-column row and two valid rows give
  exactly the two entries and one warning.
\<close>

theorem reader_drops_bad_rows_and_continues:
  "(fst (read_csv_mapping_for_gui f has_header) = None \<longleftrightarrow> \<not> readable f) \<and>
   (\<forall>evs. f = Opened evs \<and> ReadFailure \<notin> set evs \<longrightarrow>
      fst (read_csv_mapping_for_gui f has_header) =
        Some (map row_entry (filter valid_row (rows_of (data_events has_header evs)))) \<and>
      length (filter is_skip_warning (snd (read_csv_mapping_for_gui f has_header))) =
        length (filter (\<lambda>r. \<not> valid_row r) (rows_of (data_events has_header evs))) \<and>
      (fst (read_csv_mapping_for_gui f has_header) = Some [] \<longrightarrow>
         WarnNoValidRows \<in> set (snd (read_csv_mapping_for_gui f has_header)))) \<and>
   read_csv_mapping_for_gui
     (Opened [Row [''person_001''], Row [''person_002'', ''Jane Doe''], Row [''org_001'', ''Acme'']])
     False
     = (Some [(''person_002'', ''Jane Doe''), (''org_001'', ''Acme'')], [WarnSkipInsufficient 1])"
proof -
  have "read_csv_mapping_for_gui
     (Opened [Row [''person_001''], Row [''person_002'', ''Jane Doe''], Row [''org_001'', ''Acme'']])
     False
     = (Some [(''person_002'', ''Jane Doe''), (''org_001'', ''Acme'')], [WarnSkipInsufficient 1])"
    by code_simp
  with fst_read_csv_None [of f has_header] read_csv_readable [where h = has_header]
  show ?thesis by blast
qed

theorem reader_drops_bad_rows_and_continues_witness:
  "ReadFailure \<notin> set [Row [''person_001''], Row [''person_002'', '' Jane Doe'' @ [CHR 0x85]], Row [[CHR 0xA0], ''Acme'']] \<and>
   fst (read_csv_mapping_for_gui
          (Opened [Row [''person_001''], Row [''person_002'', '' Jane Doe'' @ [CHR 0x85]], Row [[CHR 0xA0], ''Acme'']]) False)
     = Some [(''person_002'', ''Jane Doe'')] \<and>
   length (filter is_skip_warning (snd (read_csv_mapping_for_gui
          (Opened [Row [''person_001''], Row [''person_002'', '' Jane Doe'' @ [CHR 0x85]], Row [[CHR 0xA0], ''Acme'']]) False)))
     = 2"
proof -
  define evs where "evs = [Row [''person_001''], Row [''person_002'', '' Jane Doe'' @ [CHR 0x85]], Row [[CHR 0xA0], ''Acme'']]"
  have nf: "ReadFailure \<notin> set evs"
    by (simp add: evs_def)
  have ev: "map row_entry (filter valid_row (rows_of (data_events False evs)))
            = [(''person_002'', ''Jane Doe'')]"
    "length (filter (\<lambda>r. \<not> valid_row r) (rows_of (data_events False evs))) = 2"
    by (simp_all add: evs_def data_events_def valid_row_def row_entry_def strip_def is_space_def)
  from reader_drops_bad_rows_and_continues [of "Opened evs" False]
  have "\<forall>evs'. Opened evs = Opened evs' \<and> ReadFailure \<notin> set evs' \<longrightarrow>
      fst (read_csv_mapping_for_gui (Opened evs) False) =
        Some (map row_entry (filter valid_row (rows_of (data_events False evs')))) \<and>
      length (filter is_skip_warning (snd (read_csv_mapping_for_gui (Opened evs) False))) =
        length (filter (\<lambda>r. \<not> valid_row r) (rows_of (data_events False evs')))"
    by blast
  with nf have "fst (read_csv_mapping_for_gui (Opened evs) False) =
        Some (map row_entry (filter valid_row (rows_of (data_events False evs)))) \<and>
      length (filter is_skip_warning (snd (read_csv_mapping_for_gui (Opened evs) False))) =
        length (filter (\<lambda>r. \<not> valid_row r) (rows_of (data_events False evs)))"
    by blast
  with nf show ?thesis
    unfolding ev unfolding evs_def by simp
qed

subsection \<open>The placeholder assigner\<close>

lemma digit_val_digit_char: "d < 10 \<Longrightarrow> digit_val (digit_char d) = d"
  by (simp add: digit_val_def digit_char_def)

lemma is_digit_digit_char: "d < 10 \<Longrightarrow> is_digit (digit_char d)"
  by (simp add: is_digit_def digit_char_def)

lemma undec_snoc: "undec (s @ [d]) = 10 * undec s + digit_val d"
  by (simp add: undec_def)

lemma undec_dec: "undec (dec n) = n"
proof (induction n rule: dec.induct)
  case (1 n)
  show ?case
  proof (cases "n < 10")
    case True
    then show ?thesis
      by (subst dec.simps) (simp add: undec_def digit_val_digit_char)
  next
    case False
    with 1 have "undec (dec (n div 10)) = n div 10" by simp
    with False show ?thesis
      by (subst dec.simps) (simp add: undec_snoc digit_val_digit_char)
  qed
qed

lemma dec_digits: "list_all is_digit (dec n)"
proof (induction n rule: dec.induct)
  case (1 n)
  show ?case
  proof (cases "n < 10")
    case True
    then show ?thesis by (subst dec.simps) (simp add: is_digit_digit_char)
  next
    case False
    with 1 have "list_all is_digit (dec (n div 10))" by simp
    with False show ?thesis by (subst dec.simps) (simp add: is_digit_digit_char)
  qed
qed

lemma undec_zeros: "undec (replicate k (CHR ''0'') @ s) = undec s"
proof -
  have "foldl (\<lambda>v d. 10 * v + digit_val d) 0 (replicate k (CHR ''0'')) = 0"
    by (induction k) (simp_all add: digit_val_def)
  then show ?thesis by (simp add: undec_def)
qed

lemma undec_format_03d: "undec (format_03d n) = n"
  by (simp add: format_03d_def undec_zeros undec_dec)

lemma dec_inj: "dec m = dec n \<Longrightarrow> m = n"
  by (metis undec_dec)

lemma format_03d_inj: "format_03d m = format_03d n \<Longrightarrow> m = n"
  by (metis undec_format_03d)

lemma not_digit_underscore: "\<not> is_digit (CHR ''_'')"
  by (simp add: is_digit_def)

lemma dec_no_underscore: "CHR ''_'' \<notin> set (dec n)"
  using dec_digits [of n] not_digit_underscore by (auto simp add: list_all_iff)

lemma format_03d_no_underscore: "CHR ''_'' \<notin> set (format_03d n)"
  using dec_no_underscore [of n] by (auto simp add: format_03d_def)

lemma separator_eq:
  "c \<notin> set a \<Longrightarrow> c \<notin> set a' \<Longrightarrow> a @ c # b = a' @ c # b' \<Longrightarrow> a = a' \<and> b = b'"
proof (induction a arbitrary: a')
  case Nil
  then show ?case by (cases a') auto
next
  case (Cons x a)
  then show ?case by (cases a') auto
qed

lemma placeholders_ok_add:
  assumes ok: "placeholders_ok fmt st"
    and inj: "\<And>m n. fmt m = fmt n \<Longrightarrow> m = n"
    and pre: "CHR ''_'' \<notin> set pre"
    and new: "entity \<notin> fst ` set (extracted_map st)"
    and n: "n = dict_get (counts st) pre 0 + 1"
  shows "placeholders_ok fmt
           (st\<lparr>extracted_map := extracted_map st @ [(entity, pre @ ''_'' @ fmt n)],
               counts := (counts st)(pre \<mapsto> n)\<rparr>)"
proof -
  let ?c' = "(counts st)(pre \<mapsto> n)"
  have mono: "dict_get (counts st) p 0 \<le> dict_get ?c' p 0" for p
    using n by (simp add: dict_get_def)
  have old: "\<exists>pre' k. snd x = pre' @ ''_'' @ fmt k \<and> CHR ''_'' \<notin> set pre' \<and> k \<le> dict_get ?c' pre' 0"
    if "x \<in> set (extracted_map st)" for x
  proof -
    from ok that obtain pre' k where
      "snd x = pre' @ ''_'' @ fmt k" "CHR ''_'' \<notin> set pre'" "k \<le> dict_get (counts st) pre' 0"
      unfolding placeholders_ok_def by blast
    with mono [of pre'] show ?thesis
      by (intro exI [of _ pre'] exI [of _ k]) simp
  qed
  have fresh: "pre @ ''_'' @ fmt n \<notin> snd ` set (extracted_map st)"
  proof
    assume "pre @ ''_'' @ fmt n \<in> snd ` set (extracted_map st)"
    then obtain x where x: "x \<in> set (extracted_map st)" "snd x = pre @ ''_'' @ fmt n"
      by auto
    from ok x(1) obtain pre' k where
      k: "snd x = pre' @ ''_'' @ fmt k" "CHR ''_'' \<notin> set pre'" "k \<le> dict_get (counts st) pre' 0"
      unfolding placeholders_ok_def by blast
    from x(2) k(1) have "pre @ ''_'' @ fmt n = pre' @ ''_'' @ fmt k" by simp
    with separator_eq [OF pre k(2), of "fmt n" "fmt k"] have "pre = pre'" "fmt n = fmt k"
      by simp_all
    with inj have "pre = pre'" "n = k" by auto
    with k(3) n show False by simp
  qed
  have new_ok: "\<exists>pre' k. pre @ ''_'' @ fmt n = pre' @ ''_'' @ fmt k \<and> CHR ''_'' \<notin> set pre' \<and>
                  k \<le> dict_get ?c' pre' 0"
    using pre by (intro exI [of _ pre] exI [of _ n]) (simp add: dict_get_def)
  from ok have d: "distinct (map snd (extracted_map st))" "distinct (map fst (extracted_map st))"
    unfolding placeholders_ok_def by simp_all
  show ?thesis
    unfolding placeholders_ok_def
    using old new_ok fresh new d by auto
qed

lemma prefix_no_underscore:
  "CHR ''_'' \<notin> set (dict_get placeholder_prefix_map l ''misc'')"
  by (simp add: dict_get_def placeholder_prefix_map_def)

lemma extract_step_cases:
  "extract_step sel st ent = st \<or>
   (\<exists>pre. CHR ''_'' \<notin> set pre \<and> strip (fst ent) \<notin> fst ` set (extracted_map st) \<and>
      extract_step sel st ent =
        st\<lparr>extracted_map := extracted_map st @
               [(strip (fst ent), pre @ ''_'' @ format_03d (dict_get (counts st) pre 0 + 1))],
           counts := (counts st)(pre \<mapsto> dict_get (counts st) pre 0 + 1)\<rparr>)"
proof (cases "extract_step sel st ent = st")
  case True
  then show ?thesis by simp
next
  case False
  define pre where "pre =
    (if isnumeric (strip (fst ent)) \<and>
        dict_get placeholder_prefix_map (snd ent) ''misc'' \<in> set [''person'', ''org'', ''place'', ''thing'']
     then ''misc'' else dict_get placeholder_prefix_map (snd ent) ''misc'')"
  define st' where "st' =
        st\<lparr>extracted_map := extracted_map st @
               [(strip (fst ent), pre @ ''_'' @ format_03d (dict_get (counts st) pre 0 + 1))],
           counts := (counts st)(pre \<mapsto> dict_get (counts st) pre 0 + 1)\<rparr>"
  have eq: "extract_step sel st ent =
    (if snd ent \<notin> set sel \<and>
         \<not> (''OTHER_TYPES'' \<in> set sel \<and> snd ent \<in> set OTHER_TYPE_SPACY_LABELS) then st
     else if strip (fst ent) = [] \<or> length (strip (fst ent)) < 2 then st
     else if strip (fst ent) \<notin> fst ` set (extracted_map st) then st' else st)"
    unfolding extract_step_def Let_def st'_def pre_def by simp
  have "CHR ''_'' \<notin> set pre"
    using prefix_no_underscore [of "snd ent"] by (simp add: pre_def)
  moreover from False eq have "strip (fst ent) \<notin> fst ` set (extracted_map st)"
    by (simp split: if_splits)
  moreover from False eq have "extract_step sel st ent = st'"
    by (simp split: if_splits)
  ultimately show ?thesis unfolding st'_def by blast
qed

lemma extract_step_ok:
  assumes "placeholders_ok format_03d st"
  shows "placeholders_ok format_03d (extract_step sel st ent)"
proof -
  from extract_step_cases [of sel st ent] show ?thesis
  proof
    assume "extract_step sel st ent = st"
    with assms show ?thesis by simp
  next
    assume "\<exists>pre. CHR ''_'' \<notin> set pre \<and> strip (fst ent) \<notin> fst ` set (extracted_map st) \<and>
      extract_step sel st ent =
        st\<lparr>extracted_map := extracted_map st @
               [(strip (fst ent), pre @ ''_'' @ format_03d (dict_get (counts st) pre 0 + 1))],
           counts := (counts st)(pre \<mapsto> dict_get (counts st) pre 0 + 1)\<rparr>"
    then obtain pre where pre: "CHR ''_'' \<notin> set pre"
      and new: "strip (fst ent) \<notin> fst ` set (extracted_map st)"
      and eq: "extract_step sel st ent =
        st\<lparr>extracted_map := extracted_map st @
               [(strip (fst ent), pre @ ''_'' @ format_03d (dict_get (counts st) pre 0 + 1))],
           counts := (counts st)(pre \<mapsto> dict_get (counts st) pre 0 + 1)\<rparr>"
      by blast
    show ?thesis
      unfolding eq by (rule placeholders_ok_add [OF assms format_03d_inj pre new refl])
  qed
qed

lemma extract_loop_ok: "placeholders_ok format_03d (extract_loop sel ents)"
proof -
  have "placeholders_ok format_03d (foldl (extract_step sel) st ents)"
    if "placeholders_ok format_03d st" for st
    using that by (induction ents arbitrary: st) (simp_all add: extract_step_ok)
  moreover have "placeholders_ok format_03d \<lparr>extracted_map = [], counts = initial_counts\<rparr>"
    by (simp add: placeholders_ok_def)
  ultimately show ?thesis by (simp add: extract_loop_def)
qed

lemma map_fst_swapped:
  "map fst (map (\<lambda>(entity, placeholder). (placeholder, entity)) xs) = map snd xs"
  by (induction xs) auto

lemma map_snd_swapped:
  "map snd (map (\<lambda>(entity, placeholder). (placeholder, entity)) xs) = map fst xs"
  by (induction xs) auto

lemma extract_entities_distinct:
  assumes "extract_entities_to_csv_data nlp clean text_content sel = Some es"
  shows "distinct (map fst es) \<and> distinct (map snd es)"
proof -
  from assms obtain ents ls where
    "es = map (\<lambda>(entity, placeholder). (placeholder, entity)) (extracted_map (extract_loop ls ents))"
    by (auto simp add: extract_entities_to_csv_data_def Let_def split: option.splits if_splits)
  then have "map fst es = map snd (extracted_map (extract_loop ls ents))"
    and "map snd es = map fst (extracted_map (extract_loop ls ents))"
    by (simp_all only: map_fst_swapped map_snd_swapped)
  with extract_loop_ok [of ls ents] show ?thesis
    by (simp only: placeholders_ok_def)
qed

lemma fp_prefix_no_underscore:
  "CHR ''_'' \<notin> set (dict_get target_labels_map l ''misc'')"
  by (simp add: dict_get_def target_labels_map_def)

lemma fp_extract_step_ok:
  assumes ok: "placeholders_ok dec st" and keys: "fp_keys_ok st"
  shows "\<exists>st'. fp_extract_step st ent = Inr st' \<and> placeholders_ok dec st' \<and> fp_keys_ok st'"
proof (cases "fp_extract_step st ent = Inr st")
  case True
  with assms show ?thesis by simp
next
  case False
  define pre where "pre = dict_get target_labels_map (snd ent) ''misc''"
  from keys obtain k where k: "counts st pre = Some k"
    unfolding fp_keys_ok_def pre_def by blast
  define st' where "st' =
        st\<lparr>extracted_map := extracted_map st @
               [(strip (fst ent), pre @ ''_'' @ dec (dict_get (counts st) pre 0 + 1))],
           counts := (counts st)(pre \<mapsto> dict_get (counts st) pre 0 + 1)\<rparr>"
  from k have g: "dict_get (counts st) pre 0 = k" by (simp add: dict_get_def)
  have eq: "fp_extract_step st ent =
    (if strip (fst ent) = [] \<or> length (strip (fst ent)) < 2 then Inr st
     else if isnumeric (strip (fst ent)) \<and>
             snd ent \<notin> set [''MONEY'', ''DATE'', ''TIME'', ''PERCENT'', ''QUANTITY'',
                                 ''ORDINAL'', ''CARDINAL'']
     then Inr st
     else if strip (fst ent) \<notin> fst ` set (extracted_map st) then Inr st' else Inr st)"
    unfolding fp_extract_step_def Let_def st'_def pre_def [symmetric] k g by simp
  from False eq have new: "strip (fst ent) \<notin> fst ` set (extracted_map st)"
    by (simp split: if_splits)
  from False eq have r: "fp_extract_step st ent = Inr st'"
    by (simp split: if_splits)
  have pre: "CHR ''_'' \<notin> set pre"
    by (simp add: pre_def fp_prefix_no_underscore)
  have "placeholders_ok dec st'"
    unfolding st'_def by (rule placeholders_ok_add [OF ok dec_inj pre new refl])
  moreover from keys have "fp_keys_ok st'"
    by (simp add: fp_keys_ok_def st'_def)
  ultimately show ?thesis using r by blast
qed

lemma fp_extract_from_ok:
  "placeholders_ok dec st \<Longrightarrow> fp_keys_ok st \<Longrightarrow>
   \<exists>st'. fp_extract_from st ents = Inr st' \<and> placeholders_ok dec st'"
proof (induction ents arbitrary: st)
  case Nil
  then show ?case by simp
next
  case (Cons ent ents)
  from fp_extract_step_ok [OF Cons.prems, of ent] obtain st1 where
    "fp_extract_step st ent = Inr st1" "placeholders_ok dec st1" "fp_keys_ok st1"
    by blast
  with Cons.IH [of st1] show ?case by simp
qed

lemma fp_extract_loop_ok:
  "\<exists>st'. fp_extract_loop ents = Inr st' \<and> placeholders_ok dec st'"
  unfolding fp_extract_loop_def
proof (rule fp_extract_from_ok)
  show "placeholders_ok dec \<lparr>extracted_map = [], counts = fp_initial_counts\<rparr>"
    by (simp add: placeholders_ok_def)
  show "fp_keys_ok \<lparr>extracted_map = [], counts = fp_initial_counts\<rparr>"
    by (simp add: fp_keys_ok_def fp_initial_counts_def dict_get_def target_labels_map_def)
qed

lemma fp_extract_entities_returns:
  "\<exists>r. fp_extract_entities_to_csv_data nlp clean text_content = Inr r"
proof (cases nlp)
  case None
  then show ?thesis by (simp add: fp_extract_entities_to_csv_data_def)
next
  case (Some model)
  from fp_extract_loop_ok [of "model (clean text_content)"] obtain st' where
    "fp_extract_loop (model (clean text_content)) = Inr st'" by blast
  with Some show ?thesis
    by (simp add: fp_extract_entities_to_csv_data_def Let_def)
qed

lemma fp_extract_entities_distinct:
  assumes "fp_extract_entities_to_csv_data nlp clean text_content = Inr (Some es)"
  shows "distinct (map fst es) \<and> distinct (map snd es)"
proof -
  from assms obtain ents st where
    st: "fp_extract_loop ents = Inr st"
    and es: "es = map (\<lambda>(entity, placeholder). (placeholder, entity)) (extracted_map st)"
    by (auto simp add: fp_extract_entities_to_csv_data_def Let_def
        split: option.splits if_splits sum.splits)
  from fp_extract_loop_ok [of ents] st have "placeholders_ok dec st" by simp
  moreover from es have "map fst es = map snd (extracted_map st)"
    and "map snd es = map fst (extracted_map st)"
    by (simp_all only: map_fst_swapped map_snd_swapped)
  ultimately show ?thesis
    by (simp only: placeholders_ok_def)
qed

text \<open>
  C8. Whatever the recognizer detects, the placeholders of the entry list the assigner
  returns are pairwise distinct (and so are its entity texts), in \<^verbatim>\<open>Qtanon.py\<close> and in
  \<^verbatim>\<open>fake-plates.py\<close>, whose loop never raises \<^verbatim>\<open>KeyError\<close>: a category's counter is
  incremented exactly when a text not seen before is admitted, and the placeholder is
  made of the category and the new counter value.
\<close>

theorem placeholders_are_distinct:
  "(extract_entities_to_csv_data nlp clean text_content sel = Some es \<longrightarrow>
      distinct (map fst es) \<and> distinct (map snd es)) \<and>
   (\<exists>r. fp_extract_entities_to_csv_data nlp clean text_content = Inr r) \<and>
   (fp_extract_entities_to_csv_data nlp clean text_content = Inr (Some es') \<longrightarrow>
      distinct (map fst es') \<and> distinct (map snd es'))"
  using extract_entities_distinct [of nlp clean text_content sel es]
    fp_extract_entities_returns [of nlp clean text_content]
    fp_extract_entities_distinct [of nlp clean text_content es']
  by blast

theorem placeholders_are_distinct_witness:
  "extract_entities_to_csv_data
     (Some (\<lambda>t. [(''Bob'', ''PERSON''), (''Acme'', ''ORG''), (''Bob'', ''PERSON''), ('' Ann '', ''PERSON'')]))
     (\<lambda>t. t) ''Bob of Acme met Bob and Ann'' (Some [''PERSON'', ''ORG''])
   = Some [(''person_001'', ''Bob''), (''org_001'', ''Acme''), (''person_002'', ''Ann'')] \<and>
   fp_extract_entities_to_csv_data
     (Some (\<lambda>t. [(''Bob'', ''PERSON''), (''Acme'', ''ORG''), (''Bob'', ''PERSON''), ('' Ann '', ''PERSON'')]))
     (\<lambda>t. t) ''Bob of Acme met Bob and Ann''
   = Inr (Some [(''person_1'', ''Bob''), (''org_1'', ''Acme''), (''person_2'', ''Ann'')]) \<and>
   distinct (map fst [(''person_001'', ''Bob''), (''org_001'', ''Acme''), (''person_002'', ''Ann'')]) \<and>
   distinct (map fst [(''person_1'', ''Bob''), (''org_1'', ''Acme''), (''person_2'', ''Ann'')])"
proof -
  have a: "extract_entities_to_csv_data
     (Some (\<lambda>t. [(''Bob'', ''PERSON''), (''Acme'', ''ORG''), (''Bob'', ''PERSON''), ('' Ann '', ''PERSON'')]))
     (\<lambda>t. t) ''Bob of Acme met Bob and Ann'' (Some [''PERSON'', ''ORG''])
   = Some [(''person_001'', ''Bob''), (''org_001'', ''Acme''), (''person_002'', ''Ann'')]"
    by code_simp
  have b: "fp_extract_entities_to_csv_data
     (Some (\<lambda>t. [(''Bob'', ''PERSON''), (''Acme'', ''ORG''), (''Bob'', ''PERSON''), ('' Ann '', ''PERSON'')]))
     (\<lambda>t. t) ''Bob of Acme met Bob and Ann''
   = Inr (Some [(''person_1'', ''Bob''), (''org_1'', ''Acme''), (''person_2'', ''Ann'')])"
    by code_simp
  from placeholders_are_distinct [of "Some (\<lambda>t. [(''Bob'', ''PERSON''), (''Acme'', ''ORG''), (''Bob'', ''PERSON''), ('' Ann '', ''PERSON'')])"
      "\<lambda>t. t" "''Bob of Acme met Bob and Ann''" "Some [''PERSON'', ''ORG'']"
      "[(''person_001'', ''Bob''), (''org_001'', ''Acme''), (''person_002'', ''Ann'')]"
      "[(''person_1'', ''Bob''), (''org_1'', ''Acme''), (''person_2'', ''Ann'')]"] a b
  have "distinct (map fst [(''person_001'', ''Bob''), (''org_001'', ''Acme''), (''person_002'', ''Ann'')])"
    and "distinct (map fst [(''person_1'', ''Bob''), (''org_1'', ''Acme''), (''person_2'', ''Ann'')])"
    by blast+
  with a b show ?thesis by blast
qed

text \<open>
  C2 (as amended). In \<^verbatim>\<open>Qtanon.py\<close> a detection that passes the label filter, whose trimmed
  text is purely numeric, at least two characters long and not seen before, and whose
  label resolves to \<^verbatim>\<open>person\<close>, \<^verbatim>\<open>org\<close>, \<^verbatim>\<open>place\<close> or \<^verbatim>\<open>thing\<close>, is not skipped: it is
  filed under \<^verbatim>\<open>misc\<close>, gets the next \<^verbatim>\<open>misc\<close> placeholder and increments the \<^verbatim>\<open>misc\<close>
  counter. In \<^verbatim>\<open>fake-plates.py\<close> a purely numeric detection whose label is none of
  \<^verbatim>\<open>MONEY, DATE, TIME, PERCENT, QUANTITY, ORDINAL, CARDINAL\<close> is skipped: the state is
  left as it was.
\<close>

theorem numeric_detection_is_filed_under_misc:
  "((snd ent \<in> set sel \<or> (''OTHER_TYPES'' \<in> set sel \<and> snd ent \<in> set OTHER_TYPE_SPACY_LABELS)) \<and>
    isnumeric (strip (fst ent)) \<and> 2 \<le> length (strip (fst ent)) \<and>
    dict_get placeholder_prefix_map (snd ent) ''misc'' \<in> set [''person'', ''org'', ''place'', ''thing''] \<and>
    strip (fst ent) \<notin> fst ` set (extracted_map st)
    \<longrightarrow> extract_step sel st ent =
          st\<lparr>extracted_map := extracted_map st @
                 [(strip (fst ent), ''misc_'' @ format_03d (dict_get (counts st) ''misc'' 0 + 1))],
             counts := (counts st)(''misc'' \<mapsto> dict_get (counts st) ''misc'' 0 + 1)\<rparr>) \<and>
   (isnumeric (strip (fst ent)) \<and>
    snd ent \<notin> set [''MONEY'', ''DATE'', ''TIME'', ''PERCENT'', ''QUANTITY'', ''ORDINAL'', ''CARDINAL'']
    \<longrightarrow> fp_extract_step st' ent = Inr st')"
proof -
  have "extract_step sel st ent =
          st\<lparr>extracted_map := extracted_map st @
                 [(strip (fst ent), ''misc_'' @ format_03d (dict_get (counts st) ''misc'' 0 + 1))],
             counts := (counts st)(''misc'' \<mapsto> dict_get (counts st) ''misc'' 0 + 1)\<rparr>"
    if "snd ent \<in> set sel \<or> (''OTHER_TYPES'' \<in> set sel \<and> snd ent \<in> set OTHER_TYPE_SPACY_LABELS)"
      "isnumeric (strip (fst ent))" "2 \<le> length (strip (fst ent))"
      "dict_get placeholder_prefix_map (snd ent) ''misc'' \<in> set [''person'', ''org'', ''place'', ''thing'']"
      "strip (fst ent) \<notin> fst ` set (extracted_map st)"
    using that unfolding extract_step_def Let_def by auto
  moreover have "fp_extract_step st' ent = Inr st'"
    if "isnumeric (strip (fst ent))"
      "snd ent \<notin> set [''MONEY'', ''DATE'', ''TIME'', ''PERCENT'', ''QUANTITY'', ''ORDINAL'', ''CARDINAL'']"
    using that unfolding fp_extract_step_def Let_def by simp
  ultimately show ?thesis by blast
qed

text \<open>
  C2 as stated fails in \<^verbatim>\<open>Qtanon.py\<close>: the numeric detection \<^verbatim>\<open>42\<close> labelled \<^verbatim>\<open>PERSON\<close> gets a
  mapping entry.
\<close>

theorem numeric_person_gets_an_entry:
  "isnumeric (strip ''42'') \<and>
   dict_get placeholder_prefix_map ''PERSON'' ''misc'' = ''person'' \<and>
   extract_entities_to_csv_data (Some (\<lambda>t. [(''42'', ''PERSON'')])) (\<lambda>t. t) ''Room 42''
     (Some [''PERSON'']) = Some [(''misc_001'', ''42'')]"
  by code_simp

theorem numeric_detection_is_filed_under_misc_witness:
  "isnumeric (strip (fst (''42'', ''PERSON''))) \<and>
   extract_step [''PERSON''] \<lparr>extracted_map = [], counts = initial_counts\<rparr> (''42'', ''PERSON'') =
     \<lparr>extracted_map = [(''42'', ''misc_001'')], counts = initial_counts(''misc'' \<mapsto> 1)\<rparr> \<and>
   fp_extract_step \<lparr>extracted_map = [], counts = fp_initial_counts\<rparr> (''42'', ''PERSON'') =
     Inr \<lparr>extracted_map = [], counts = fp_initial_counts\<rparr> \<and>
   isnumeric (strip (fst ([CHR 0xA0, CHR 0xB2, CHR 0xB3], ''PERSON''))) \<and>
   extract_step [''PERSON''] \<lparr>extracted_map = [], counts = initial_counts\<rparr>
       ([CHR 0xA0, CHR 0xB2, CHR 0xB3], ''PERSON'') =
     \<lparr>extracted_map = [([CHR 0xB2, CHR 0xB3], ''misc_001'')],
      counts = initial_counts(''misc'' \<mapsto> 1)\<rparr> \<and>
   fp_extract_step \<lparr>extracted_map = [], counts = fp_initial_counts\<rparr>
       ([CHR 0xA0, CHR 0xB2, CHR 0xB3], ''PERSON'') =
     Inr \<lparr>extracted_map = [], counts = fp_initial_counts\<rparr>"
proof -
  have s: "strip ''42'' = ''42''"
    by (simp add: strip_def is_space_def)
  have n: "isnumeric ''42''"
    by (simp add: isnumeric_def is_numeric_char_def)
  have s': "strip [CHR 0xA0, CHR 0xB2, CHR 0xB3] = [CHR 0xB2, CHR 0xB3]"
    by (simp add: strip_def is_space_def)
  have n': "isnumeric [CHR 0xB2, CHR 0xB3]"
    by (simp add: isnumeric_def is_numeric_char_def)
  have p: "dict_get placeholder_prefix_map ''PERSON'' ''misc'' = ''person''"
    by (simp add: dict_get_def placeholder_prefix_map_def)
  have c: "dict_get initial_counts ''misc'' 0 = 0"
    by (simp add: dict_get_def initial_counts_def)
  have f: "format_03d (Suc 0) = ''001''"
    by code_simp
  from numeric_detection_is_filed_under_misc [of "(''42'', ''PERSON'')" "[''PERSON'']" "\<lparr>extracted_map = [], counts = initial_counts\<rparr>"
      "\<lparr>extracted_map = [], counts = fp_initial_counts\<rparr>"]
  have a: "isnumeric (strip (fst (''42'', ''PERSON''))) \<and>
   extract_step [''PERSON''] \<lparr>extracted_map = [], counts = initial_counts\<rparr> (''42'', ''PERSON'') =
     \<lparr>extracted_map = [(''42'', ''misc_001'')], counts = initial_counts(''misc'' \<mapsto> 1)\<rparr> \<and>
   fp_extract_step \<lparr>extracted_map = [], counts = fp_initial_counts\<rparr> (''42'', ''PERSON'') =
     Inr \<lparr>extracted_map = [], counts = fp_initial_counts\<rparr>"
    by (simp add: s n p c f)
  from numeric_detection_is_filed_under_misc [of "([CHR 0xA0, CHR 0xB2, CHR 0xB3], ''PERSON'')" "[''PERSON'']"
      "\<lparr>extracted_map = [], counts = initial_counts\<rparr>"
      "\<lparr>extracted_map = [], counts = fp_initial_counts\<rparr>"]
  have b: "isnumeric (strip (fst ([CHR 0xA0, CHR 0xB2, CHR 0xB3], ''PERSON''))) \<and>
   extract_step [''PERSON''] \<lparr>extracted_map = [], counts = initial_counts\<rparr>
       ([CHR 0xA0, CHR 0xB2, CHR 0xB3], ''PERSON'') =
     \<lparr>extracted_map = [([CHR 0xB2, CHR 0xB3], ''misc_001'')],
      counts = initial_counts(''misc'' \<mapsto> 1)\<rparr> \<and>
   fp_extract_step \<lparr>extracted_map = [], counts = fp_initial_counts\<rparr>
       ([CHR 0xA0, CHR 0xB2, CHR 0xB3], ''PERSON'') =
     Inr \<lparr>extracted_map = [], counts = fp_initial_counts\<rparr>"
    by (simp add: s' n' p c f)
  from a b show ?thesis by blast
qed

subsection \<open>Restoring person names\<close>

lemma length_str_lower [simp]: "length (str_lower s) = length s"
  by (simp add: str_lower_def)

lemma str_lower_eq_length: "str_lower a = str_lower b \<Longrightarrow> length a = length b"
  by (metis length_str_lower)

lemma re_sub_scan_unfold:
  "tx \<noteq> [] \<Longrightarrow>
   re_sub_scan wb pat repl st pv tx =
     (if match_here wb pat pv tx then
        fst (repl st (take (length pat) tx)) @
        re_sub_scan wb pat repl (snd (repl st (take (length pat) tx)))
          (Some (last (take (length pat) tx))) (drop (length pat) tx)
      else hd tx # re_sub_scan wb pat repl st (Some (hd tx)) (tl tx))"
  by (cases tx) simp_all

lemma re_sub_scan_prev:
  "re_sub_scan False pat repl st pv tx = re_sub_scan False pat repl st None tx"
proof (induction tx arbitrary: st pv rule: length_induct)
  case (1 tx)
  show ?case
  proof (cases "tx = []")
    case True
    then show ?thesis by simp
  next
    case False
    have mh: "match_here False pat pv tx = match_here False pat None tx"
      by (simp add: match_here_def)
    show ?thesis
    proof (cases "match_here False pat None tx")
      case True
      then have "pat \<noteq> []" by (simp add: match_here_def)
      with False have "length (drop (length pat) tx) < length tx"
        by simp
      with 1 have "re_sub_scan False pat repl st' p (drop (length pat) tx) =
                   re_sub_scan False pat repl st' None (drop (length pat) tx)" for st' p
        by blast
      from this [of _ "Some (last (take (length pat) tx))"] this [of _ None] True mh show ?thesis
        by (simp add: re_sub_scan_unfold [OF False])
    next
      case nomatch: False
      from False have "length (tl tx) < length tx" by simp
      with 1 have "re_sub_scan False pat repl st p (tl tx) = re_sub_scan False pat repl st None (tl tx)" for p
        by blast
      from this [of "Some (hd tx)"] nomatch mh show ?thesis
        by (simp add: re_sub_scan_unfold [OF False])
    qed
  qed
qed

lemma ci_prefix_append_left:
  "ci_prefix pat (x @ y) \<Longrightarrow> length pat \<le> length x \<Longrightarrow> ci_prefix pat x"
  by (simp add: ci_prefix_def)

lemma ci_prefix_occurs: "ci_prefix pat tx \<Longrightarrow> occurs_ci pat tx"
  by (cases tx) simp_all

lemma scan_no_occurrence:
  "\<not> occurs_ci pat tx \<Longrightarrow> re_sub_scan False pat repl st pv tx = tx"
  by (induction tx arbitrary: pv) (simp_all add: match_here_def)

lemma scan_skip_segment:
  assumes "length m = length pat" "m \<noteq> []"
  shows "\<not> occurs_ci pat (s @ butlast m) \<Longrightarrow>
         re_sub_scan False pat repl st pv (s @ m @ rest) =
           s @ re_sub_scan False pat repl st None (m @ rest)"
proof (induction s arbitrary: pv)
  case Nil
  show ?case using re_sub_scan_prev [of pat repl st pv] by simp
next
  case (Cons c s)
  have "\<not> ci_prefix pat ((c # s) @ m @ rest)"
  proof
    assume a: "ci_prefix pat ((c # s) @ m @ rest)"
    from assms(2) have "m @ rest = butlast m @ last m # rest"
      by (metis append_butlast_last_id append.assoc append_Cons append_Nil)
    then have e: "(c # s) @ m @ rest = ((c # s) @ butlast m) @ (last m # rest)"
      by (simp only: append_assoc append_Cons)
    from a have "ci_prefix pat (((c # s) @ butlast m) @ (last m # rest))"
      unfolding e .
    moreover from assms have "length pat \<le> length ((c # s) @ butlast m)" by simp
    ultimately have "ci_prefix pat ((c # s) @ butlast m)"
      by (rule ci_prefix_append_left)
    with Cons.prems show False by simp
  qed
  then have "\<not> match_here False pat pv (c # (s @ m @ rest))"
    by (simp add: match_here_def)
  moreover from Cons.prems have "\<not> occurs_ci pat (s @ butlast m)" by simp
  ultimately show ?case using Cons.IH by simp
qed

lemma scan_match:
  assumes "str_lower m = str_lower pat" "pat \<noteq> []"
  shows "re_sub_scan False pat repl st pv (m @ rest) =
           fst (repl st m) @ re_sub_scan False pat repl (snd (repl st m)) None rest"
proof -
  from assms have len: "length m = length pat" by (metis length_str_lower)
  with assms have ne: "m @ rest \<noteq> []" by auto
  from len have td: "take (length pat) (m @ rest) = m" "drop (length pat) (m @ rest) = rest"
    by simp_all
  from len assms have mh: "match_here False pat pv (m @ rest)"
    by (simp add: match_here_def ci_prefix_def)
  have "re_sub_scan False pat repl st pv (m @ rest) =
          fst (repl st m) @ re_sub_scan False pat repl (snd (repl st m)) (Some (last m)) rest"
    by (simp only: re_sub_scan_unfold [OF ne] mh td if_True)
  then show ?thesis
    using re_sub_scan_prev [of pat repl "snd (repl st m)" "Some (last m)" rest]
    by simp
qed

lemma scan_pairs:
  assumes "pat \<noteq> []"
  shows "splits_at pat pairs tail \<Longrightarrow>
         re_sub_scan False pat repl st None (joined pairs tail) = replace_pairs repl st pairs @ tail"
proof (induction pairs arbitrary: st)
  case Nil
  then show ?case by (simp add: splits_at_def joined_def scan_no_occurrence)
next
  case (Cons sm ps)
  from Cons.prems have m: "str_lower (snd sm) = str_lower pat"
    and s: "\<not> occurs_ci pat (fst sm @ butlast (snd sm))"
    and rest: "splits_at pat ps tail"
    by (simp_all add: splits_at_def)
  from m assms have len: "length (snd sm) = length pat" "snd sm \<noteq> []"
    by (auto dest: str_lower_eq_length)
  have "joined (sm # ps) tail = fst sm @ snd sm @ joined ps tail"
    by (simp add: joined_def)
  then have "re_sub_scan False pat repl st None (joined (sm # ps) tail) =
      fst sm @ re_sub_scan False pat repl st None (snd sm @ joined ps tail)"
    using scan_skip_segment [OF len s] by simp
  also have "re_sub_scan False pat repl st None (snd sm @ joined ps tail) =
      fst (repl st (snd sm)) @ re_sub_scan False pat repl (snd (repl st (snd sm))) None (joined ps tail)"
    by (rule scan_match [OF m assms])
  finally show ?case
    using Cons.IH [OF rest] by simp
qed

lemma parse_template_literal:
  "backslash \<notin> set s \<Longrightarrow> parse_template s = Inr (map TLit s)"
  by (induction s) (auto simp add: tcons_def)

lemma expand_template_literal: "expand_template (map TLit s) m = s"
  by (induction s) (simp_all add: expand_template_def)

lemma re_sub_literal:
  "backslash \<notin> set r \<Longrightarrow>
   re_sub wb lit r tx = Inr (re_sub_scan wb lit (\<lambda>st m. (r, st)) () None tx)"
  by (simp add: re_sub_def parse_template_literal expand_template_literal)

lemma replace_pairs_const:
  "replace_pairs (\<lambda>st m. (r, g st m)) st pairs = concat (map (\<lambda>sm. fst sm @ r) pairs)"
  by (induction pairs arbitrary: st) simp_all

lemma restored_uniform:
  "restored pairs (replicate (length pairs) r) tail = concat (map (\<lambda>sm. fst sm @ r) pairs) @ tail"
proof -
  have "map (\<lambda>(sm, r). fst sm @ r) (zip pairs (replicate (length pairs) r)) =
        map (\<lambda>sm. fst sm @ r) pairs"
    by (induction pairs) simp_all
  then show ?thesis by (simp add: restored_def)
qed

lemma replace_pairs_person_later:
  "0 < count r \<Longrightarrow>
   replace_pairs PersonNameReplacer_call r pairs = concat (map (\<lambda>sm. fst sm @ last_name r) pairs)"
  by (induction pairs arbitrary: r) (simp_all add: PersonNameReplacer_call_def Let_def)

lemma replace_pairs_person:
  "replace_pairs PersonNameReplacer_call \<lparr>full_name = e, last_name = ln, count = 0\<rparr> pairs @ tail =
     restored pairs (e # replicate (length pairs - 1) ln) tail"
proof (cases pairs)
  case Nil
  then show ?thesis by (simp add: restored_def)
next
  case (Cons sm ps)
  have "replace_pairs PersonNameReplacer_call \<lparr>full_name = e, last_name = ln, count = 1\<rparr> ps =
          concat (map (\<lambda>sm. fst sm @ ln) ps)"
    using replace_pairs_person_later [of "\<lparr>full_name = e, last_name = ln, count = 1\<rparr>" ps] by simp
  moreover have "concat (map (\<lambda>sm. fst sm @ ln) ps) @ tail = restored ps (replicate (length ps) ln) tail"
    by (simp add: restored_uniform)
  ultimately show ?thesis
    using Cons by (simp add: PersonNameReplacer_call_def Let_def restored_def)
qed

lemma startswith_nonempty: "startswith p ''person_'' \<Longrightarrow> p \<noteq> []"
  by (auto simp add: startswith_def)

lemma bold_nonempty: "bold p \<noteq> []"
  by (simp add: bold_def)

lemma de_anonymize_loop_append:
  "de_anonymize_loop c (xs @ ys) =
     (case de_anonymize_loop c xs of Inl x \<Rightarrow> Inl x | Inr c' \<Rightarrow> de_anonymize_loop c' ys)"
  by (induction xs arbitrary: c) (simp_all split: sum.splits)

lemma person_multi_entry:
  assumes "startswith p ''person_''" "splits_at (bold p) pairs tail" "2 \<le> length (split e)"
  shows "de_anonymize_entry (joined pairs tail) (p, e) =
           Inr (restored pairs (e # replicate (length pairs - 1) (last (split e))) tail)"
proof -
  from assms(3) have ne: "split e \<noteq> []" "length (split e) \<noteq> 1" by auto
  have "de_anonymize_entry (joined pairs tail) (p, e) =
      Inr (re_sub_scan False (bold p) PersonNameReplacer_call
             \<lparr>full_name = e, last_name = last (split e), count = 0\<rparr> None (joined pairs tail))"
    using assms(1) ne startswith_nonempty [OF assms(1)]
    by (simp add: de_anonymize_entry_def Let_def except_re_error_def re_sub_callable_def)
  then show ?thesis
    by (simp add: scan_pairs [OF bold_nonempty assms(2)] replace_pairs_person)
qed

lemma person_single_entry:
  assumes "startswith p ''person_''" "splits_at (bold p) pairs tail" "length (split e) \<le> 1"
    "backslash \<notin> set e"
  shows "de_anonymize_entry (joined pairs tail) (p, e) =
           Inr (restored pairs (replicate (length pairs) e) tail)"
proof -
  from assms(3) have ne: "split e = [] \<or> length (split e) = 1"
    by (cases "split e") auto
  have "de_anonymize_entry (joined pairs tail) (p, e) =
      Inr (re_sub_scan False (bold p) (\<lambda>st m. (e, st)) () None (joined pairs tail))"
    using assms(1) ne startswith_nonempty [OF assms(1)]
    by (auto simp add: de_anonymize_entry_def Let_def except_re_error_def re_sub_literal [OF assms(4)])
  then show ?thesis
    by (simp add: scan_pairs [OF bold_nonempty assms(2)] replace_pairs_const restored_uniform)
qed

lemma de_anonymize_at_entry:
  assumes "sort_by_len_desc fst data = es1 @ (p, e) # es2"
    "de_anonymize_loop content es1 = Inr content1"
    "de_anonymize_entry content1 (p, e) = Inr content2"
  shows "fst (de_anonymize_text_logic content data) = de_anonymize_loop content2 es2"
  using assms by (simp add: fst_de_anonymize_text_logic de_anonymize_loop_append)

lemma split_from_nospace:
  "list_all (\<lambda>c. \<not> is_space c) s \<Longrightarrow> split_from cur s = (if cur @ s = [] then [] else [cur @ s])"
  by (induction s arbitrary: cur) simp_all

lemma split_from_nonempty:
  "cur \<noteq> [] \<or> list_ex (\<lambda>c. \<not> is_space c) s \<Longrightarrow> split_from cur s \<noteq> []"
  by (induction s arbitrary: cur) auto

lemma split_from_space:
  "list_all (\<lambda>c. \<not> is_space c) x \<Longrightarrow> is_space c \<Longrightarrow>
   split_from cur (x @ c # y) =
     (if cur @ x = [] then split_from [] y else (cur @ x) # split_from [] y)"
  by (induction x arbitrary: cur) simp_all

lemma dropWhile_shorter: "xs \<noteq> [] \<Longrightarrow> P (hd xs) \<Longrightarrow> length (dropWhile P xs) < length xs"
  by (cases xs) (simp_all add: le_imp_less_Suc length_dropWhile_le)

lemma strip_id_ends:
  assumes "strip e = e" "e \<noteq> []"
  shows "\<not> is_space (hd e)" and "\<not> is_space (last e)"
proof -
  have l1: "length (strip e) \<le> length (dropWhile is_space e)"
    using length_dropWhile_le [of is_space "rev (dropWhile is_space e)"] by (simp add: strip_def)
  show h: "\<not> is_space (hd e)"
  proof
    assume "is_space (hd e)"
    with assms(2) have "length (dropWhile is_space e) < length e" by (rule dropWhile_shorter)
    with l1 assms(1) show False by simp
  qed
  with assms(2) have "dropWhile is_space e = e" by (cases e) simp_all
  with assms(1) have r: "dropWhile is_space (rev e) = rev e"
    by (metis rev_rev_ident strip_def)
  show "\<not> is_space (last e)"
  proof
    assume "is_space (last e)"
    with assms(2) have "is_space (hd (rev e))" by (simp add: hd_rev)
    with assms(2) have "length (dropWhile is_space (rev e)) < length (rev e)"
      by (intro dropWhile_shorter) simp_all
    with r show False by simp
  qed
qed

lemma single_token_trimmed:
  assumes "length (split e) = 1" "strip e = e"
  shows "split e = [e]"
proof -
  from assms(1) have ne: "e \<noteq> []" by (auto simp add: split_def)
  show ?thesis
  proof (cases "list_all (\<lambda>c. \<not> is_space c) e")
    case True
    with ne show ?thesis by (simp add: split_def split_from_nospace)
  next
    case False
    define x where "x = takeWhile (\<lambda>c. \<not> is_space c) e"
    define r where "r = dropWhile (\<lambda>c. \<not> is_space c) e"
    have e: "e = x @ r" by (simp add: x_def r_def)
    from False have "r \<noteq> []" by (simp add: r_def list_all_iff)
    then obtain c y where r: "r = c # y" by (cases r) auto
    have c: "is_space c"
      using hd_dropWhile [of "\<lambda>c. \<not> is_space c" e] r False
      by (auto simp add: r_def list_all_iff)
    have x: "list_all (\<lambda>c. \<not> is_space c) x"
      by (auto simp add: x_def list_all_iff dest: set_takeWhileD)
    from strip_id_ends [OF assms(2) ne] have ends: "\<not> is_space (hd e)" "\<not> is_space (last e)" .
    from ends(1) ne have "x \<noteq> []" by (cases e) (simp_all add: x_def)
    have "y \<noteq> []"
    proof
      assume "y = []"
      with e r have "last e = c" by simp
      with c ends(2) show False by simp
    qed
    with e r have "last y = last e" by simp
    with ends(2) have "\<not> is_space (last y)" by simp
    moreover from \<open>y \<noteq> []\<close> have "last y \<in> set y" by simp
    ultimately have "list_ex (\<lambda>c. \<not> is_space c) y"
      unfolding list_ex_iff by blast
    then have "split_from [] y \<noteq> []" by (simp add: split_from_nonempty)
    moreover have "split e = x # split_from [] y"
      using split_from_space [OF x c, of "[]" y] \<open>x \<noteq> []\<close> by (simp add: split_def e r)
    ultimately have "length (split e) \<ge> 2"
      by (cases "split_from [] y") simp_all
    with assms(1) show ?thesis by simp
  qed
qed

lemma occurs_ci_short: "length t < length pat \<Longrightarrow> \<not> occurs_ci pat t"
  by (induction t) (simp_all add: ci_prefix_def)

lemma ci_prefix_extend: "ci_prefix pat x \<Longrightarrow> ci_prefix pat (x @ y)"
  by (simp add: ci_prefix_def)

lemma first_occurrence:
  assumes "pat \<noteq> []"
  shows "occurs_ci pat tx \<Longrightarrow>
         \<exists>s m rest. tx = s @ m @ rest \<and> str_lower m = str_lower pat \<and>
                     \<not> occurs_ci pat (s @ butlast m)"
proof (induction tx)
  case Nil
  with assms show ?case by (simp add: ci_prefix_def)
next
  case (Cons c cs)
  show ?case
  proof (cases "ci_prefix pat (c # cs)")
    case True
    define m where "m = take (length pat) (c # cs)"
    from True have len: "length m = length pat" and low: "str_lower m = str_lower pat"
      by (simp_all add: ci_prefix_def m_def)
    from len assms have "length (butlast m) < length pat" by (cases pat) simp_all
    then have "\<not> occurs_ci pat ([] @ butlast m)" by (simp add: occurs_ci_short)
    moreover have "c # cs = [] @ m @ drop (length pat) (c # cs)" by (simp add: m_def)
    ultimately show ?thesis using low by blast
  next
    case False
    with Cons.prems have "occurs_ci pat cs" by simp
    with Cons.IH obtain s m rest where
      cs: "cs = s @ m @ rest" and low: "str_lower m = str_lower pat"
      and no: "\<not> occurs_ci pat (s @ butlast m)"
      by blast
    from low assms have "m \<noteq> []" by (auto dest: str_lower_eq_length)
    then have "m @ rest = butlast m @ last m # rest"
      by (metis append_butlast_last_id append.assoc append_Cons append_Nil)
    with cs have e: "c # cs = (c # s @ butlast m) @ (last m # rest)"
      by (simp only: append_assoc append_Cons)
    have "\<not> ci_prefix pat (c # s @ butlast m)"
    proof
      assume "ci_prefix pat (c # s @ butlast m)"
      then have "ci_prefix pat ((c # s @ butlast m) @ (last m # rest))" by (rule ci_prefix_extend)
      with e False show False by simp
    qed
    with no have "\<not> occurs_ci pat ((c # s) @ butlast m)" by simp
    moreover from cs have "c # cs = (c # s) @ m @ rest" by simp
    ultimately show ?thesis using low by blast
  qed
qed

lemma splitting_exists:
  assumes "pat \<noteq> []"
  shows "\<exists>pairs tail. tx = joined pairs tail \<and> splits_at pat pairs tail"
proof (induction tx rule: length_induct)
  case (1 tx)
  show ?case
  proof (cases "occurs_ci pat tx")
    case False
    then have "tx = joined [] tx \<and> splits_at pat [] tx"
      by (simp add: joined_def splits_at_def)
    then show ?thesis by blast
  next
    case True
    from first_occurrence [OF assms True] obtain s m rest where
      tx: "tx = s @ m @ rest" and low: "str_lower m = str_lower pat"
      and no: "\<not> occurs_ci pat (s @ butlast m)"
      by blast
    from low assms have "m \<noteq> []" by (auto dest: str_lower_eq_length)
    with tx have "length rest < length tx" by simp
    with 1 obtain pairs tail where r: "rest = joined pairs tail" "splits_at pat pairs tail"
      by blast
    from tx r(1) have "tx = joined ((s, m) # pairs) tail" by (simp add: joined_def)
    moreover from r(2) low no have "splits_at pat ((s, m) # pairs) tail"
      by (simp add: splits_at_def)
    ultimately show ?thesis by blast
  qed
qed

text \<open>
  C3 (as amended). Take any entry list and an entry of it whose placeholder starts with
  \<^verbatim>\<open>person_\<close>. The loop runs over the list sorted by the length of the placeholder; when the
  entry's turn comes the text is what the entries before it have left. Cut that text at
  the occurrences (ignoring case, leftmost first, none overlapping) of the bolded
  placeholder, which is always possible. If the real entity splits into two or more
  tokens, the first occurrence is replaced with the full real entity and every later one
  with its last token. If it splits into at most one token and holds no backslash, every
  occurrence is replaced with the real entity as it is given, which is the token itself
  when the real entity has no white space around it. The entries after it are then
  applied to the text so restored, and that is the result of the function.
\<close>

theorem person_restoration_policy:
  "startswith p ''person_'' \<and> sort_by_len_desc fst data = es1 @ (p, e) # es2 \<and>
   de_anonymize_loop content es1 = Inr content1 \<longrightarrow>
     (\<exists>pairs tail. content1 = joined pairs tail \<and> splits_at (bold p) pairs tail) \<and>
     (\<forall>pairs tail. content1 = joined pairs tail \<and> splits_at (bold p) pairs tail \<longrightarrow>
        (2 \<le> length (split e) \<longrightarrow>
           fst (de_anonymize_text_logic content data) =
             de_anonymize_loop
               (restored pairs (e # replicate (length pairs - 1) (last (split e))) tail) es2) \<and>
        (length (split e) \<le> 1 \<and> backslash \<notin> set e \<longrightarrow>
           fst (de_anonymize_text_logic content data) =
             de_anonymize_loop (restored pairs (replicate (length pairs) e) tail) es2)) \<and>
     (length (split e) = 1 \<and> strip e = e \<longrightarrow> split e = [e])"
proof (intro impI, elim conjE)
  assume h: "startswith p ''person_''" "sort_by_len_desc fst data = es1 @ (p, e) # es2"
    "de_anonymize_loop content es1 = Inr content1"
  have a: "\<exists>pairs tail. content1 = joined pairs tail \<and> splits_at (bold p) pairs tail"
    by (rule splitting_exists [OF bold_nonempty])
  have b: "fst (de_anonymize_text_logic content data) =
             de_anonymize_loop
               (restored pairs (e # replicate (length pairs - 1) (last (split e))) tail) es2"
    if "content1 = joined pairs tail" "splits_at (bold p) pairs tail" "2 \<le> length (split e)"
    for pairs tail
    using de_anonymize_at_entry [OF h(2,3)] person_multi_entry [OF h(1) that(2,3)] that(1)
    by simp
  have c: "fst (de_anonymize_text_logic content data) =
             de_anonymize_loop (restored pairs (replicate (length pairs) e) tail) es2"
    if "content1 = joined pairs tail" "splits_at (bold p) pairs tail" "length (split e) \<le> 1"
      "backslash \<notin> set e"
    for pairs tail
    using de_anonymize_at_entry [OF h(2,3)] person_single_entry [OF h(1) that(2,3,4)] that(1)
    by simp
  have d: "length (split e) = 1 \<and> strip e = e \<longrightarrow> split e = [e]"
    using single_token_trimmed [of e] by blast
  from a b c d show
    "(\<exists>pairs tail. content1 = joined pairs tail \<and> splits_at (bold p) pairs tail) \<and>
     (\<forall>pairs tail. content1 = joined pairs tail \<and> splits_at (bold p) pairs tail \<longrightarrow>
        (2 \<le> length (split e) \<longrightarrow>
           fst (de_anonymize_text_logic content data) =
             de_anonymize_loop
               (restored pairs (e # replicate (length pairs - 1) (last (split e))) tail) es2) \<and>
        (length (split e) \<le> 1 \<and> backslash \<notin> set e \<longrightarrow>
           fst (de_anonymize_text_logic content data) =
             de_anonymize_loop (restored pairs (replicate (length pairs) e) tail) es2)) \<and>
     (length (split e) = 1 \<and> strip e = e \<longrightarrow> split e = [e])"
    by blast
qed

text \<open>
  C3 as stated fails for a single-token real entity with white space around it: the
  replacement is the real entity as given, not the token. It also fails for a single-token
  real entity with a backslash, which \<^verbatim>\<open>re.sub\<close> reads as a template: \<^verbatim>\<open>AC\DC\<close> is a bad
  escape, the error is caught and the placeholder stays in the text.
\<close>

theorem single_token_replaced_with_untrimmed_entity:
  "startswith ''person_001'' ''person_'' \<and> split ''Doe '' = [''Doe''] \<and>
   fst (de_anonymize_text_logic ''**person_001** left'' [(''person_001'', ''Doe '')])
     = Inr ''Doe  left'' \<and>
   split (''AC'' @ [CHR 0x5C] @ ''DC'') = [''AC'' @ [CHR 0x5C] @ ''DC''] \<and>
   fst (de_anonymize_text_logic ''**person_001** left'' [(''person_001'', ''AC'' @ [CHR 0x5C] @ ''DC'')])
     = Inr ''**person_001** left''"
  by code_simp

text \<open>The theorem at a list of three entries, the person between a place restored before
  it and an organization restored after it; the name is written with a no-break space,
  which separates its two tokens.\<close>

theorem person_restoration_policy_witness:
  "startswith ''person_001'' ''person_'' \<and>
   sort_by_len_desc fst
     [(''place_0001'', ''Paris''), (''person_001'', ''Jane'' @ [CHR 0xA0] @ ''Doe''), (''org_001'', ''Acme'')]
     = [(''place_0001'', ''Paris'')] @ (''person_001'', ''Jane'' @ [CHR 0xA0] @ ''Doe'') # [(''org_001'', ''Acme'')] \<and>
   de_anonymize_loop ''**person_001** of **org_001** met **PERSON_001** in **place_0001**.''
     [(''place_0001'', ''Paris'')]
     = Inr ''**person_001** of **org_001** met **PERSON_001** in Paris.'' \<and>
   splits_at (bold ''person_001'')
     [([], ''**person_001**''), ('' of **org_001** met '', ''**PERSON_001**'')] '' in Paris.'' \<and>
   split (''Jane'' @ [CHR 0xA0] @ ''Doe'') = [''Jane'', ''Doe''] \<and>
   fst (de_anonymize_text_logic ''**person_001** of **org_001** met **PERSON_001** in **place_0001**.''
     [(''place_0001'', ''Paris''), (''person_001'', ''Jane'' @ [CHR 0xA0] @ ''Doe''), (''org_001'', ''Acme'')])
     = Inr (''Jane'' @ [CHR 0xA0] @ ''Doe of Acme met Doe in Paris.'')"
proof -
  define e where "e = ''Jane'' @ [CHR 0xA0] @ ''Doe''"
  define data where "data = [(''place_0001'', ''Paris''), (''person_001'', e), (''org_001'', ''Acme'')]"
  define content where "content = ''**person_001** of **org_001** met **PERSON_001** in **place_0001**.''"
  define content1 where "content1 = ''**person_001** of **org_001** met **PERSON_001** in Paris.''"
  define pairs where "pairs = [([], ''**person_001**''), ('' of **org_001** met '', ''**PERSON_001**'')]"
  define tail where "tail = '' in Paris.''"
  have a: "startswith ''person_001'' ''person_''"
    by code_simp
  have s: "sort_by_len_desc fst data = [(''place_0001'', ''Paris'')] @ (''person_001'', e) # [(''org_001'', ''Acme'')]"
    unfolding data_def by (simp add: sort_by_len_desc_def)
  have l: "de_anonymize_loop content [(''place_0001'', ''Paris'')] = Inr content1"
    unfolding content_def content1_def by code_simp
  have b: "splits_at (bold ''person_001'') pairs tail"
    unfolding pairs_def tail_def by code_simp
  have c: "content1 = joined pairs tail"
    unfolding content1_def pairs_def tail_def by (simp add: joined_def)
  have sp: "split e = [''Jane'', ''Doe'']"
    unfolding e_def by code_simp
  then have d: "2 \<le> length (split e)" by simp
  have r: "de_anonymize_loop (restored pairs (e # replicate (length pairs - 1) (last (split e))) tail)
             [(''org_001'', ''Acme'')] = Inr (''Jane'' @ [CHR 0xA0] @ ''Doe of Acme met Doe in Paris.'')"
    unfolding sp unfolding e_def pairs_def tail_def by code_simp
  from person_restoration_policy
    [where p = "''person_001''" and data = data and ?es1.0 = "[(''place_0001'', ''Paris'')]" and e = e
       and ?es2.0 = "[(''org_001'', ''Acme'')]" and content = content and ?content1.0 = content1]
    a s l
  have "\<forall>pairs tail. content1 = joined pairs tail \<and> splits_at (bold ''person_001'') pairs tail \<longrightarrow>
          (2 \<le> length (split e) \<longrightarrow>
             fst (de_anonymize_text_logic content data) =
               de_anonymize_loop
                 (restored pairs (e # replicate (length pairs - 1) (last (split e))) tail)
                 [(''org_001'', ''Acme'')])"
    by blast
  with b c d have "fst (de_anonymize_text_logic content data) =
               de_anonymize_loop
                 (restored pairs (e # replicate (length pairs - 1) (last (split e))) tail)
                 [(''org_001'', ''Acme'')]"
    by blast
  with r have f: "fst (de_anonymize_text_logic content data) =
      Inr (''Jane'' @ [CHR 0xA0] @ ''Doe of Acme met Doe in Paris.'')"
    by simp
  from a s l b sp f show ?thesis
    unfolding e_def data_def content_def content1_def pairs_def tail_def
    by (intro conjI)
qed

subsection \<open>The round trip\<close>

subsubsection \<open>Characters\<close>

lemma of_char_lower_char:
  "is_upper c \<Longrightarrow> (of_char (lower_char c) :: nat) = of_char c + 32"
proof -
  assume u: "is_upper c"
  then have "(of_char c :: nat) + 32 < 256" by (auto simp add: is_upper_def)
  with u show ?thesis by (simp add: lower_char_def)
qed

lemma lower_char_star: "lower_char c = CHR ''*'' \<longleftrightarrow> c = CHR ''*''"
proof
  assume a: "lower_char c = CHR ''*''"
  show "c = CHR ''*''"
  proof (cases "is_upper c")
    case True
    from of_char_lower_char [OF True] a have "(of_char c :: nat) + 32 = 42" by simp
    with True show ?thesis by (simp add: is_upper_def)
  next
    case False
    with a show ?thesis by (simp add: lower_char_def)
  qed
next
  assume "c = CHR ''*''"
  then show "lower_char c = CHR ''*''" by (simp add: lower_char_def is_upper_def)
qed

lemma is_word_lower_char: "is_word_char (lower_char c) = is_word_char c"
proof (cases "is_upper c")
  case True
  from of_char_lower_char [OF True] True have "is_word_char (lower_char c)"
    unfolding is_word_char_def is_upper_def by presburger
  moreover from True have "is_word_char c"
    unfolding is_word_char_def is_upper_def by presburger
  ultimately show ?thesis by simp
next
  case False
  then show ?thesis by (simp add: lower_char_def)
qed

lemma lower_char_eq_word: "lower_char a = lower_char b \<Longrightarrow> is_word_char a = is_word_char b"
  by (metis is_word_lower_char)

lemma lower_char_eq_star: "lower_char a = lower_char b \<Longrightarrow> a = CHR ''*'' \<longleftrightarrow> b = CHR ''*''"
  by (metis lower_char_star)

lemma word_not_star: "is_word_char c \<Longrightarrow> c \<noteq> CHR ''*''"
  by (auto simp add: is_word_char_def)

lemma word_not_backslash: "is_word_char c \<Longrightarrow> c \<noteq> backslash"
  by (auto simp add: is_word_char_def backslash_def)

subsubsection \<open>Where a pattern cannot match\<close>

lemma ci_prefix_Cons:
  "ci_prefix (x # xs) (c # cs) \<longleftrightarrow> lower_char x = lower_char c \<and> ci_prefix xs cs"
  by (auto simp add: ci_prefix_def str_lower_def)

lemma ci_prefix_Nil_text: "ci_prefix e [] \<longleftrightarrow> e = []"
  by (auto simp add: ci_prefix_def str_lower_def)

lemma no_match_head:
  "e \<noteq> [] \<Longrightarrow> lower_char (hd e) \<noteq> lower_char c \<Longrightarrow> \<not> match_here wb e pv (c # cs)"
  by (cases e) (simp_all add: match_here_def ci_prefix_Cons)

lemma no_match_star:
  "e \<noteq> [] \<Longrightarrow> CHR ''*'' \<notin> set e \<Longrightarrow> \<not> match_here wb e pv (CHR ''*'' # cs)"
proof (rule no_match_head)
  assume "e \<noteq> []" "CHR ''*'' \<notin> set e"
  then have "hd e \<noteq> CHR ''*''" by (cases e) auto
  then show "lower_char (hd e) \<noteq> lower_char (CHR ''*'')"
    using lower_char_eq_star [of "hd e" "CHR ''*''"] by auto
qed

lemma no_match_nonword:
  "e \<noteq> [] \<Longrightarrow> is_word_char (hd e) \<Longrightarrow> \<not> is_word_char c \<Longrightarrow> \<not> match_here wb e pv (c # cs)"
proof (rule no_match_head)
  assume "is_word_char (hd e)" "\<not> is_word_char c"
  then show "lower_char (hd e) \<noteq> lower_char c"
    using lower_char_eq_word [of "hd e" c] by auto
qed

lemma no_match_inside_word:
  "is_word_opt pv \<Longrightarrow> is_word_char c \<Longrightarrow> \<not> match_here True e pv (c # cs)"
  by (simp add: match_here_def word_boundary_def next_char_def is_word_opt_def)

lemma str_lower_no_star:
  "str_lower a = str_lower b \<Longrightarrow> CHR ''*'' \<notin> set b \<Longrightarrow> CHR ''*'' \<notin> set a"
proof (induction a arbitrary: b)
  case Nil
  then show ?case by simp
next
  case (Cons x a)
  then obtain y b' where b: "b = y # b'" by (cases b) (auto simp add: str_lower_def)
  with Cons.prems have "lower_char x = lower_char y" "str_lower a = str_lower b'"
    by (simp_all add: str_lower_def)
  with Cons.IH [of b'] Cons.prems(2) b lower_char_eq_star [of x y] show ?case by auto
qed

lemma str_lower_word_ends:
  assumes "str_lower a = str_lower b" "b \<noteq> []"
  shows "is_word_char (hd a) = is_word_char (hd b)" and "is_word_char (last a) = is_word_char (last b)"
proof -
  from assms have "a \<noteq> []" by (auto simp add: str_lower_def)
  from assms(1) have "map lower_char a = map lower_char b" by (simp add: str_lower_def)
  then have "lower_char (hd a) = lower_char (hd b)" "lower_char (last a) = lower_char (last b)"
    using \<open>a \<noteq> []\<close> assms(2) by (metis hd_map, metis last_map)
  then show "is_word_char (hd a) = is_word_char (hd b)"
    and "is_word_char (last a) = is_word_char (last b)"
    by (auto dest: lower_char_eq_word)
qed

lemma walk_word:
  "list_all is_word_char w \<Longrightarrow> is_word_opt pv \<Longrightarrow>
   re_sub_scan True e repl st pv (w @ rest) =
     w @ re_sub_scan True e repl st (if w = [] then pv else Some (last w)) rest"
proof (induction w arbitrary: pv)
  case Nil
  then show ?case by simp
next
  case (Cons c w)
  then have "\<not> match_here True e pv (c # w @ rest)"
    by (simp add: no_match_inside_word)
  moreover from Cons.prems have "is_word_opt (Some c)" by (simp add: is_word_opt_def)
  ultimately show ?case using Cons.IH [of "Some c"] Cons.prems by simp
qed

lemma no_match_chunk_body:
  assumes e: "e \<noteq> []" "CHR ''*'' \<notin> set e"
    and w: "list_all is_word_char w" "w \<noteq> []" "str_lower e \<noteq> str_lower w"
  shows "\<not> match_here True e pv (w @ CHR ''*'' # rest)"
proof
  assume m: "match_here True e pv (w @ CHR ''*'' # rest)"
  let ?t = "w @ CHR ''*'' # rest"
  from m have cp: "ci_prefix e ?t"
    and eb: "word_boundary (Some (last (take (length e) ?t))) (next_char (drop (length e) ?t))"
    by (simp_all add: match_here_def)
  from cp have low: "str_lower (take (length e) ?t) = str_lower e" by (simp add: ci_prefix_def)
  from low e(2) have ns: "CHR ''*'' \<notin> set (take (length e) ?t)" by (rule str_lower_no_star)
  have le: "length e \<le> length w"
  proof (rule ccontr)
    assume "\<not> length e \<le> length w"
    then have tk: "take (length e) ?t = w @ CHR ''*'' # take (length e - Suc (length w)) rest"
      by (simp add: take_Cons')
    from ns show False unfolding tk by simp
  qed
  show False
  proof (cases "length e = length w")
    case True
    with low w(3) show False by simp
  next
    case False
    with le have lt: "length e < length w" by simp
    from e(1) have pos: "0 < length e" by simp
    from lt have tk: "take (length e) ?t = take (length e) w" by simp
    from lt pos have "take (length e) w \<noteq> []" by auto
    then have "last (take (length e) w) \<in> set w"
      by (meson last_in_set set_take_subset subsetD)
    with w(1) have "is_word_char (last (take (length e) w))"
      by (simp add: list_all_iff)
    then have a: "is_word_char (last (take (length e) ?t))"
      unfolding tk .
    from lt have dn: "drop (length e) w \<noteq> []" by simp
    then have "hd (drop (length e) w) \<in> set w"
      by (meson hd_in_set set_drop_subset subsetD)
    with w(1) have hw: "is_word_char (hd (drop (length e) w))"
      by (simp add: list_all_iff)
    from lt have dr: "drop (length e) ?t = drop (length e) w @ CHR ''*'' # rest"
      by simp
    from dn have "next_char (drop (length e) ?t) = Some (hd (drop (length e) w))"
      unfolding dr by (cases "drop (length e) w") (simp_all add: next_char_def)
    with hw have b: "is_word_opt (next_char (drop (length e) ?t))"
      by (simp add: is_word_opt_def)
    from eb a b show False by (simp add: word_boundary_def is_word_opt_def)
  qed
qed

lemma walk_chunk:
  assumes e: "e \<noteq> []" "CHR ''*'' \<notin> set e"
    and w: "list_all is_word_char w" "w \<noteq> []" "str_lower e \<noteq> str_lower w"
  shows "re_sub_scan True e repl st pv (bold w @ rest) =
           bold w @ re_sub_scan True e repl st (Some (CHR ''*'')) rest"
proof -
  obtain c w' where cw: "w = c # w'" using w(2) by (cases w) auto
  have star: "re_sub_scan True e repl st q (CHR ''*'' # x) =
                CHR ''*'' # re_sub_scan True e repl st (Some (CHR ''*'')) x" for q x
    using no_match_star [OF e, of True q x] by simp
  have "\<not> match_here True e (Some (CHR ''*'')) (w @ CHR ''*'' # CHR ''*'' # rest)"
    using e w by (rule no_match_chunk_body)
  then have body: "re_sub_scan True e repl st (Some (CHR ''*'')) (c # w' @ CHR ''*'' # CHR ''*'' # rest) =
      c # re_sub_scan True e repl st (Some c) (w' @ CHR ''*'' # CHR ''*'' # rest)"
    by (simp add: cw)
  from w(1) cw have wc: "is_word_opt (Some c)" "list_all is_word_char w'"
    by (simp_all add: is_word_opt_def)
  have inner: "re_sub_scan True e repl st (Some c) (w' @ CHR ''*'' # CHR ''*'' # rest) =
          w' @ re_sub_scan True e repl st (if w' = [] then Some c else Some (last w'))
                 (CHR ''*'' # CHR ''*'' # rest)"
    using wc(2) wc(1) by (rule walk_word)
  have "re_sub_scan True e repl st pv (bold w @ rest) =
          re_sub_scan True e repl st pv (CHR ''*'' # CHR ''*'' # c # w' @ CHR ''*'' # CHR ''*'' # rest)"
    by (simp add: bold_def cw)
  also have "\<dots> = CHR ''*'' # CHR ''*'' #
      re_sub_scan True e repl st (Some (CHR ''*'')) (c # w' @ CHR ''*'' # CHR ''*'' # rest)"
    by (simp only: star)
  also have "\<dots> = CHR ''*'' # CHR ''*'' # c # w' @
      re_sub_scan True e repl st (if w' = [] then Some c else Some (last w'))
                 (CHR ''*'' # CHR ''*'' # rest)"
    by (simp only: body inner)
  also have "\<dots> = CHR ''*'' # CHR ''*'' # c # w' @ CHR ''*'' # CHR ''*'' #
      re_sub_scan True e repl st (Some (CHR ''*'')) rest"
    by (simp only: star)
  also have "\<dots> = bold w @ re_sub_scan True e repl st (Some (CHR ''*'')) rest"
    by (simp add: bold_def cw)
  finally show ?thesis .
qed

subsubsection \<open>Anonymization over items\<close>

lemma render_a_map_L: "render_a (map L m @ r) = m @ render_a r"
  by (induction m) simp_all

lemma render_o_map_L: "render_o (map L m @ r) = m @ render_o r"
  by (induction m) simp_all

lemma chunks_map_L: "chunks (map L m @ r) = chunks r"
  by (induction m) simp_all

lemma literal_items:
  "render_a items = m @ rest \<Longrightarrow> CHR ''*'' \<notin> set m \<Longrightarrow>
   \<exists>r. items = map L m @ r \<and> render_a r = rest"
proof (induction m arbitrary: items rest)
  case Nil
  then show ?case by simp
next
  case (Cons c m)
  show ?case
  proof (cases items)
    case Nil
    with Cons.prems show ?thesis by simp
  next
    case (Cons it its)
    show ?thesis
    proof (cases it)
      case (L c')
      with Cons Cons.prems have "c' = c" "render_a its = m @ rest" "CHR ''*'' \<notin> set m"
        by simp_all
      with Cons.IH [of its rest] obtain r where "its = map L m @ r" "render_a r = rest"
        by blast
      with L Cons \<open>c' = c\<close> show ?thesis by simp
    next
      case (K p' e')
      with Cons Cons.prems show ?thesis by (simp add: bold_def)
    qed
  qed
qed

lemma good_weaken: "good AfterChunk r \<Longrightarrow> good cx r"
proof (cases r)
  case Nil
  then show ?thesis by simp
next
  case (Cons it its)
  assume "good AfterChunk r"
  with Cons show ?thesis by (cases it) simp_all
qed

lemma good_after_literals:
  "m \<noteq> [] \<Longrightarrow> good cx (map L m @ r) \<Longrightarrow> good (after_char (last m)) r"
proof (induction m arbitrary: cx)
  case Nil
  then show ?case by simp
next
  case (Cons c m)
  then show ?case by (cases "m = []") auto
qed

lemma good_literals:
  "cx \<noteq> AfterChunk \<Longrightarrow>
   good (if m = [] then cx else after_char (last m)) r \<Longrightarrow> good cx (map L m @ r)"
proof (induction m arbitrary: cx)
  case Nil
  then show ?case by simp
next
  case (Cons c m)
  have "after_char c \<noteq> AfterChunk" by (simp add: after_char_def)
  moreover from Cons.prems have "good (if m = [] then after_char c else after_char (last m)) r"
    by (cases "m = []") simp_all
  ultimately have "good (after_char c) (map L m @ r)" using Cons.IH by blast
  with Cons.prems show ?case by auto
qed

lemma exact_case_suffix:
  "exact_case e pv (x @ y) \<Longrightarrow> exact_case e (if x = [] then pv else Some (last x)) y"
proof (induction x arbitrary: pv)
  case Nil
  then show ?case by simp
next
  case (Cons c x)
  then have "exact_case e (Some c) (x @ y)" by simp
  from Cons.IH [OF this] show ?case by (cases "x = []") simp_all
qed

lemma exact_case_head:
  "exact_case e pv tx \<Longrightarrow> match_here True e pv tx \<Longrightarrow> take (length e) tx = e"
  by (cases tx) (simp_all add: match_here_def ci_prefix_Nil_text)

lemma good_after_match:
  assumes "good AfterWord r" "\<not> is_word_opt (next_char (render_a r))"
  shows "good AfterChunk r"
proof (cases r)
  case Nil
  then show ?thesis by simp
next
  case (Cons it its)
  show ?thesis
  proof (cases it)
    case (L c)
    with Cons assms show ?thesis by (simp add: next_char_def is_word_opt_def)
  next
    case (K p' e')
    with Cons assms show ?thesis by simp
  qed
qed

lemma good_after_chunk_next:
  assumes "good AfterChunk r"
  shows "\<not> is_word_opt (next_char (render_a r))" and "\<not> is_word_opt (next_char (render_o r))"
proof -
  show "\<not> is_word_opt (next_char (render_a r))"
  proof (cases r)
    case Nil
    then show ?thesis by (simp add: next_char_def is_word_opt_def)
  next
    case (Cons it its)
    with assms show ?thesis by (cases it) (simp_all add: next_char_def is_word_opt_def)
  qed
  show "\<not> is_word_opt (next_char (render_o r))"
  proof (cases r)
    case Nil
    then show ?thesis by (simp add: next_char_def is_word_opt_def)
  next
    case (Cons it its)
    with assms show ?thesis by (cases it) (simp_all add: next_char_def is_word_opt_def)
  qed
qed

lemma anonymize_scan_items:
  fixes repl :: "'st \<Rightarrow> string \<Rightarrow> string \<times> 'st"
  assumes e: "e \<noteq> []" "CHR ''*'' \<notin> set e" "is_word_char (hd e)" "is_word_char (last e)"
    and p: "p \<noteq> []" "list_all is_word_char p"
    and repl: "\<And>st m. fst (repl st m) = bold p"
  shows "good cx items \<Longrightarrow> (cx = Free \<longrightarrow> \<not> is_word_opt pv \<and> pvT = pv) \<Longrightarrow>
         (cx = AfterWord \<longrightarrow> is_word_opt pv) \<Longrightarrow>
         (\<forall>x \<in> chunks items. str_lower e \<noteq> str_lower (fst x)) \<Longrightarrow>
         exact_case e pvT (render_o items) \<Longrightarrow>
         \<exists>items'. re_sub_scan True e repl st pv (render_a items) = render_a items' \<and>
                   render_o items' = render_o items \<and> good cx items' \<and>
                   chunks items' \<subseteq> insert (p, e) (chunks items)"
proof (induction items arbitrary: cx pv pvT st rule: length_induct)
  case (1 items)
  have IH: "\<exists>items'. re_sub_scan True e repl st' pv' (render_a r) = render_a items' \<and>
                   render_o items' = render_o r \<and> good cx' items' \<and>
                   chunks items' \<subseteq> insert (p, e) (chunks r)"
    if "length r < length items" "good cx' r" "cx' = Free \<longrightarrow> \<not> is_word_opt pv' \<and> pvT' = pv'"
      "cx' = AfterWord \<longrightarrow> is_word_opt pv'"
      "\<forall>x \<in> chunks r. str_lower e \<noteq> str_lower (fst x)" "exact_case e pvT' (render_o r)"
    for r cx' pv' pvT' st'
    using "1.IH" that by blast
  show ?case
  proof (cases items)
    case Nil
    then have "re_sub_scan True e repl st pv (render_a items) = render_a [] \<and>
               render_o [] = render_o items \<and> good cx [] \<and> chunks [] \<subseteq> insert (p, e) (chunks items)"
      by simp
    then show ?thesis by blast
  next
    case (Cons it r)
    show ?thesis
    proof (cases it)
      case (K p' e')
      from "1.prems"(1) Cons K have cxF: "cx = Free" and p': "p' \<noteq> []" "list_all is_word_char p'"
        and gr: "good AfterChunk r"
        by simp_all
      from "1.prems"(4) Cons K have ne: "str_lower e \<noteq> str_lower p'" and
        ch: "\<forall>x \<in> chunks r. str_lower e \<noteq> str_lower (fst x)"
        by simp_all
      from "1.prems"(5) Cons K have "exact_case e pvT (e' @ render_o r)" by simp
      then have ex: "exact_case e (if e' = [] then pvT else Some (last e')) (render_o r)"
        by (rule exact_case_suffix)
      have sc: "re_sub_scan True e repl st pv (render_a items) =
                bold p' @ re_sub_scan True e repl st (Some (CHR ''*'')) (render_a r)"
        using walk_chunk [OF e(1,2) p'(2,1) ne] by (simp add: Cons K)
      from Cons have "length r < length items" by simp
      moreover have "AfterChunk = Free \<longrightarrow> \<not> is_word_opt (Some (CHR ''*'')) \<and>
          (if e' = [] then pvT else Some (last e')) = Some (CHR ''*'')"
        and "AfterChunk = AfterWord \<longrightarrow> is_word_opt (Some (CHR ''*''))"
        by simp_all
      ultimately obtain r' where
        r': "re_sub_scan True e repl st (Some (CHR ''*'')) (render_a r) = render_a r'"
        "render_o r' = render_o r" "good AfterChunk r'" "chunks r' \<subseteq> insert (p, e) (chunks r)"
        using IH [of r AfterChunk "Some (CHR ''*'')" "if e' = [] then pvT else Some (last e')" st]
          gr ch ex by blast
      have "re_sub_scan True e repl st pv (render_a items) = render_a (K p' e' # r') \<and>
            render_o (K p' e' # r') = render_o items \<and> good cx (K p' e' # r') \<and>
            chunks (K p' e' # r') \<subseteq> insert (p, e) (chunks items)"
        using sc r' cxF p' by (auto simp add: Cons K)
      then show ?thesis by blast
    next
      case (L c)
      from "1.prems"(1) Cons L have c: "cx = AfterChunk \<longrightarrow> \<not> is_word_char c"
        and gr: "good (after_char c) r"
        by simp_all
      show ?thesis
      proof (cases "match_here True e pv (c # render_a r)")
        case False
        then have sc: "re_sub_scan True e repl st pv (render_a items) =
                  c # re_sub_scan True e repl st (Some c) (render_a r)"
          by (simp add: Cons L)
        from "1.prems"(4) Cons L have ch: "\<forall>x \<in> chunks r. str_lower e \<noteq> str_lower (fst x)"
          by simp
        from "1.prems"(5) Cons L have ex: "exact_case e (Some c) (render_o r)"
          by simp
        from Cons have "length r < length items" by simp
        moreover have "after_char c = Free \<longrightarrow> \<not> is_word_opt (Some c) \<and> Some c = Some c"
          and "after_char c = AfterWord \<longrightarrow> is_word_opt (Some c)"
          by (simp_all add: after_char_def is_word_opt_def)
        ultimately obtain r' where
          r': "re_sub_scan True e repl st (Some c) (render_a r) = render_a r'"
          "render_o r' = render_o r" "good (after_char c) r'" "chunks r' \<subseteq> insert (p, e) (chunks r)"
          using IH [of r "after_char c" "Some c" "Some c" st] gr ch ex by blast
        have "re_sub_scan True e repl st pv (render_a items) = render_a (L c # r') \<and>
              render_o (L c # r') = render_o items \<and> good cx (L c # r') \<and>
              chunks (L c # r') \<subseteq> insert (p, e) (chunks items)"
          using sc r' c by (auto simp add: Cons L)
        then show ?thesis by blast
      next
        case True
        let ?t = "render_a items"
        define m where "m = take (length e) ?t"
        from True Cons L have mh: "match_here True e pv ?t" by simp
        then have cp: "ci_prefix e ?t"
          and sb: "word_boundary pv (next_char ?t)"
          and eb: "word_boundary (Some (last m)) (next_char (drop (length e) ?t))"
          by (simp_all add: match_here_def m_def)
        from cp have low: "str_lower m = str_lower e" and len: "length m = length e"
          by (simp_all add: ci_prefix_def m_def)
        from low e(2) have ns: "CHR ''*'' \<notin> set m" by (rule str_lower_no_star)
        have split: "?t = m @ drop (length e) ?t" by (simp add: m_def)
        from literal_items [OF split ns] obtain r0 where
          r0: "items = map L m @ r0" "render_a r0 = drop (length e) ?t"
          by blast
        from len e(1) have mne: "m \<noteq> []" by auto
        from str_lower_word_ends [OF low e(1)] e(3,4)
        have mw: "is_word_char (hd m)" "is_word_char (last m)" by simp_all
        from mne split Cons L have hm: "hd m = c" by (cases m) simp_all
        with mw(1) c have cx1: "cx \<noteq> AfterChunk" by auto
        from sb Cons L hm mw(1) have npv: "\<not> is_word_opt pv"
          by (simp add: word_boundary_def next_char_def is_word_opt_def)
        with "1.prems"(3) cx1 have cxF: "cx = Free" by (cases cx) auto
        with "1.prems"(2) have pvT: "pvT = pv" by simp
        have ro: "render_o items = m @ render_o r0"
          by (simp add: r0(1) render_o_map_L)
        from "1.prems"(1) r0(1) mne have "good (after_char (last m)) r0"
          by (simp add: good_after_literals)
        with mw(2) have "good AfterWord r0" by (simp add: after_char_def)
        moreover from eb mw(2) r0(2) have "\<not> is_word_opt (next_char (render_a r0))"
          by (simp add: word_boundary_def is_word_opt_def)
        ultimately have g0: "good AfterChunk r0" by (rule good_after_match)
        have tk: "take (length e) (m @ render_o r0) = m" "drop (length e) (m @ render_o r0) = render_o r0"
          using len by simp_all
        have nx: "next_char (m @ render_o r0) = Some (hd m)"
          using mne by (cases m) (simp_all add: next_char_def)
        have "match_here True e pv (m @ render_o r0)"
          unfolding match_here_def ci_prefix_def tk nx
          using e(1) low len npv mw good_after_chunk_next(2) [OF g0]
          by (simp add: word_boundary_def is_word_opt_def)
        moreover from "1.prems"(5) ro pvT have "exact_case e pv (m @ render_o r0)" by simp
        ultimately have "take (length e) (m @ render_o r0) = e"
          by (rule exact_case_head [rotated])
        with tk(1) have me: "m = e" by simp
        from "1.prems"(4) r0(1) have ch: "\<forall>x \<in> chunks r0. str_lower e \<noteq> str_lower (fst x)"
          by (simp add: chunks_map_L)
        from "1.prems"(5) ro have "exact_case e pvT (m @ render_o r0)" by simp
        from exact_case_suffix [OF this] mne have ex: "exact_case e (Some (last m)) (render_o r0)"
          by simp
        from r0(1) mne have "length r0 < length items" by simp
        moreover have "AfterChunk = Free \<longrightarrow> \<not> is_word_opt (Some (last m)) \<and> Some (last m) = Some (last m)"
          and "AfterChunk = AfterWord \<longrightarrow> is_word_opt (Some (last m))"
          by simp_all
        ultimately obtain r' where
          r': "re_sub_scan True e repl (snd (repl st m)) (Some (last m)) (render_a r0) = render_a r'"
          "render_o r' = render_o r0" "good AfterChunk r'" "chunks r' \<subseteq> insert (p, e) (chunks r0)"
          using IH [of r0 AfterChunk "Some (last m)" "Some (last m)" "snd (repl st m)"] g0 ch ex by blast
        from Cons L have tne: "?t \<noteq> []" by simp
        have "re_sub_scan True e repl st pv ?t =
                fst (repl st m) @ re_sub_scan True e repl (snd (repl st m)) (Some (last m)) (render_a r0)"
          using mh by (simp only: re_sub_scan_unfold [OF tne] if_True m_def [symmetric] r0(2))
        with r' repl have sc: "re_sub_scan True e repl st pv ?t = bold p @ render_a r'" by simp
        have "re_sub_scan True e repl st pv (render_a items) = render_a (K p e # r') \<and>
              render_o (K p e # r') = render_o items \<and> good cx (K p e # r') \<and>
              chunks (K p e # r') \<subseteq> insert (p, e) (chunks items)"
          using sc r' cxF p ro me r0(1) by (auto simp add: chunks_map_L)
        then show ?thesis by blast
      qed
    qed
  qed
qed

subsubsection \<open>Restoration over items\<close>

lemma hd_bold: "hd (bold p) = CHR ''*''" and bold_ne: "bold p \<noteq> []"
  by (simp_all add: bold_def)

lemma no_match_bold_nonstar:
  "c \<noteq> CHR ''*'' \<Longrightarrow> \<not> match_here wb (bold p) pv (c # cs)"
proof (rule no_match_head [OF bold_ne])
  assume "c \<noteq> CHR ''*''"
  then show "lower_char (hd (bold p)) \<noteq> lower_char c"
    using lower_char_eq_star [of "CHR ''*''" c] by (auto simp add: hd_bold)
qed

lemma walk_nonstar:
  "CHR ''*'' \<notin> set w \<Longrightarrow>
   re_sub_scan False (bold p) repl st pv (w @ rest) =
     w @ re_sub_scan False (bold p) repl st None rest"
proof (induction w arbitrary: pv)
  case Nil
  show ?case using re_sub_scan_prev [of "bold p" repl st pv rest] by simp
next
  case (Cons c w)
  then have "\<not> match_here False (bold p) pv (c # w @ rest)"
    by (intro no_match_bold_nonstar) auto
  with Cons show ?case by simp
qed

lemma ci_prefix_words_star:
  "list_all is_word_char p \<Longrightarrow> list_all is_word_char p' \<Longrightarrow>
   ci_prefix (p @ CHR ''*'' # x) (p' @ CHR ''*'' # y) \<Longrightarrow> str_lower p = str_lower p'"
proof (induction p arbitrary: p')
  case Nil
  show ?case
  proof (cases p')
    case Nil
    then show ?thesis by simp
  next
    case (Cons b q)
    with Nil.prems have "lower_char (CHR ''*'') = lower_char b" "is_word_char b"
      by (simp_all add: ci_prefix_Cons)
    then show ?thesis
      using lower_char_eq_star [of "CHR ''*''" b] word_not_star [of b] by auto
  qed
next
  case (Cons a p)
  show ?case
  proof (cases p')
    case Nil
    with Cons.prems have "lower_char a = lower_char (CHR ''*'')" "is_word_char a"
      by (simp_all add: ci_prefix_Cons)
    then show ?thesis
      using lower_char_eq_star [of a "CHR ''*''"] word_not_star [of a] by auto
  next
    case (Cons b q)
    with Cons.prems Cons.IH [of q] show ?thesis
      by (simp add: ci_prefix_Cons str_lower_def)
  qed
qed

lemma no_match_other_chunk:
  assumes "list_all is_word_char p" "list_all is_word_char p'" "str_lower p' \<noteq> str_lower p"
  shows "\<not> match_here False (bold p) pv (bold p' @ rest)"
proof
  assume "match_here False (bold p) pv (bold p' @ rest)"
  then have "ci_prefix (p @ CHR ''*'' # ''*'') (p' @ CHR ''*'' # CHR ''*'' # rest)"
    by (simp add: match_here_def bold_def ci_prefix_Cons)
  with assms(1,2) have "str_lower p = str_lower p'" by (rule ci_prefix_words_star)
  with assms(3) show False by simp
qed

lemma no_match_chunk_end2:
  assumes p: "p \<noteq> []" "list_all is_word_char p"
    and r: "\<not> is_word_opt (next_char rest)"
  shows "\<not> match_here False (bold p) pv (CHR ''*'' # CHR ''*'' # rest)"
proof
  assume "match_here False (bold p) pv (CHR ''*'' # CHR ''*'' # rest)"
  then have cp: "ci_prefix (p @ ''**'') rest"
    by (simp add: match_here_def bold_def ci_prefix_Cons)
  from p obtain a q where pq: "p = a # q" "is_word_char a" by (cases p) auto
  show False
  proof (cases rest)
    case Nil
    with cp pq show False by (simp add: ci_prefix_Nil_text)
  next
    case (Cons c cs)
    with cp pq have "lower_char a = lower_char c" by (simp add: ci_prefix_Cons)
    with pq(2) have "is_word_char c" by (auto dest: lower_char_eq_word)
    with r Cons show False by (simp add: next_char_def is_word_opt_def)
  qed
qed

lemma no_match_chunk_end1:
  assumes r: "next_char rest \<noteq> Some (CHR ''*'')"
  shows "\<not> match_here False (bold p) pv (CHR ''*'' # rest)"
proof
  assume "match_here False (bold p) pv (CHR ''*'' # rest)"
  then have cp: "ci_prefix (CHR ''*'' # p @ ''**'') rest"
    by (simp add: match_here_def bold_def ci_prefix_Cons)
  show False
  proof (cases rest)
    case Nil
    with cp show False by (simp add: ci_prefix_Nil_text)
  next
    case (Cons c cs)
    with cp have "lower_char (CHR ''*'') = lower_char c" by (simp add: ci_prefix_Cons)
    then have "c = CHR ''*''" using lower_char_eq_star [of "CHR ''*''" c] by simp
    with r Cons show False by (simp add: next_char_def)
  qed
qed

lemma occurs_ci_suffix: "occurs_ci pat y \<Longrightarrow> occurs_ci pat (x @ y)"
  by (induction x) simp_all

lemma ci_prefix_append:
  "ci_prefix (a @ b) t \<longleftrightarrow> ci_prefix a t \<and> ci_prefix b (drop (length a) t)"
proof (induction a arbitrary: t)
  case Nil
  show ?case by (simp add: ci_prefix_def str_lower_def)
next
  case (Cons x a)
  show ?case
  proof (cases t)
    case Nil
    then show ?thesis by (simp add: ci_prefix_Nil_text)
  next
    case (Cons c cs)
    with Cons.IH [of cs] show ?thesis by (auto simp add: ci_prefix_Cons)
  qed
qed

lemma star_run:
  assumes p: "p \<noteq> []" "list_all is_word_char p" and g: "good cx r"
    and cp: "ci_prefix (CHR ''*'' # p @ ''**'') (render_a r)"
  shows "ci_prefix (CHR ''*'' # p @ ''*'') (render_o r)"
proof (cases r)
  case Nil
  with cp show ?thesis by (simp add: ci_prefix_Nil_text)
next
  case (Cons it r1)
  from p obtain a q where pq: "p = a # q" "is_word_char a" by (cases p) auto
  show ?thesis
  proof (cases it)
    case (K p' e')
    with cp Cons pq have "lower_char a = lower_char (CHR ''*'')"
      by (simp add: bold_def ci_prefix_Cons)
    with pq(2) show ?thesis
      using lower_char_eq_star [of a "CHR ''*''"] word_not_star [of a] by auto
  next
    case (L c)
    from cp Cons L have c: "lower_char (CHR ''*'') = lower_char c"
      and cp1: "ci_prefix (p @ ''**'') (render_a r1)"
      by (simp_all add: ci_prefix_Cons)
    from c have cs: "c = CHR ''*''" using lower_char_eq_star [of "CHR ''*''" c] by simp
    from g Cons L have g1: "good (after_char c) r1" by simp
    define m where "m = take (length p) (render_a r1)"
    from cp1 have cpp: "ci_prefix p (render_a r1)"
      and cps: "ci_prefix ''**'' (drop (length p) (render_a r1))"
      by (simp_all add: ci_prefix_append)
    from cpp have low: "str_lower m = str_lower p" and len: "length m = length p"
      by (simp_all add: ci_prefix_def m_def)
    from p(2) have "CHR ''*'' \<notin> set p"
      by (auto simp add: list_all_iff dest: word_not_star)
    with low have ns: "CHR ''*'' \<notin> set m" by (rule str_lower_no_star)
    have split: "render_a r1 = m @ drop (length p) (render_a r1)" by (simp add: m_def)
    from literal_items [OF split ns] obtain r2 where
      r2: "r1 = map L m @ r2" "render_a r2 = drop (length p) (render_a r1)"
      by blast
    from len p(1) have mne: "m \<noteq> []" by auto
    from p have "is_word_char (last p)" by (simp add: list_all_iff)
    with str_lower_word_ends(2) [OF low p(1)] have lw: "is_word_char (last m)" by simp
    from g1 r2(1) mne have "good (after_char (last m)) r2" by (simp add: good_after_literals)
    with lw have g2: "good AfterWord r2" by (simp add: after_char_def)
    from cps r2(2) have cp2: "ci_prefix ''**'' (render_a r2)" by simp
    have "\<exists>r3. r2 = L (CHR ''*'') # r3"
    proof (cases r2)
      case Nil
      with cp2 show ?thesis by (simp add: ci_prefix_Nil_text)
    next
      case (Cons it2 r3)
      show ?thesis
      proof (cases it2)
        case (K p2 e2)
        with g2 Cons show ?thesis by simp
      next
        case (L d)
        with cp2 Cons have "lower_char (CHR ''*'') = lower_char d" by (simp add: ci_prefix_Cons)
        then have "d = CHR ''*''" using lower_char_eq_star [of "CHR ''*''" d] by simp
        with L Cons show ?thesis by simp
      qed
    qed
    then obtain r3 where r3: "r2 = L (CHR ''*'') # r3" by blast
    have ro: "render_o r = CHR ''*'' # m @ CHR ''*'' # render_o r3"
      by (simp add: Cons L cs r2(1) r3 render_o_map_L)
    have "ci_prefix p (m @ CHR ''*'' # render_o r3)"
      using low len by (simp add: ci_prefix_def)
    moreover have "ci_prefix ''*'' (drop (length p) (m @ CHR ''*'' # render_o r3))"
      using len by (simp add: ci_prefix_Cons ci_prefix_def)
    ultimately have "ci_prefix (p @ ''*'') (m @ CHR ''*'' # render_o r3)"
      by (simp only: ci_prefix_append)
    then show ?thesis unfolding ro by (simp add: ci_prefix_Cons)
  qed
qed

lemma no_starred_suffix:
  "\<not> occurs_ci pat (x @ y) \<Longrightarrow> \<not> occurs_ci pat y"
  by (auto dest: occurs_ci_suffix)

lemma no_match_star_run:
  assumes p: "p \<noteq> []" "list_all is_word_char p" and g: "good cx r"
    and no: "\<not> occurs_ci (CHR ''*'' # p @ ''*'') (render_o r)"
  shows "\<not> match_here False (bold p) pv (CHR ''*'' # render_a r)"
proof
  assume "match_here False (bold p) pv (CHR ''*'' # render_a r)"
  then have "ci_prefix (CHR ''*'' # p @ ''**'') (render_a r)"
    by (simp add: match_here_def bold_def ci_prefix_Cons)
  from star_run [OF p g this] have "occurs_ci (CHR ''*'' # p @ ''*'') (render_o r)"
    by (rule ci_prefix_occurs)
  with no show False by simp
qed

lemma walk_other_chunk:
  assumes p: "p \<noteq> []" "list_all is_word_char p"
    and p': "p' \<noteq> []" "list_all is_word_char p'" "str_lower p' \<noteq> str_lower p"
    and r: "\<not> is_word_opt (next_char rest)"
      "\<not> match_here False (bold p) (Some (CHR ''*'')) (CHR ''*'' # rest)"
  shows "re_sub_scan False (bold p) repl st pv (bold p' @ rest) =
           bold p' @ re_sub_scan False (bold p) repl st None rest"
proof -
  obtain c w where cw: "p' = c # w" using p'(1) by (cases p') auto
  with p'(2) have c: "c \<noteq> CHR ''*''" and w: "CHR ''*'' \<notin> set (c # w)"
    by (auto simp add: list_all_iff dest: word_not_star)
  have n0: "\<not> match_here False (bold p) pv (CHR ''*'' # CHR ''*'' # c # w @ CHR ''*'' # CHR ''*'' # rest)"
    using no_match_other_chunk [OF p(2) p'(2,3), of pv rest] by (simp add: bold_def cw)
  have n1: "\<not> match_here False (bold p) (Some (CHR ''*'')) (CHR ''*'' # c # w @ CHR ''*'' # CHR ''*'' # rest)"
    using c by (intro no_match_chunk_end1) (simp add: next_char_def)
  have body: "re_sub_scan False (bold p) repl st (Some (CHR ''*'')) ((c # w) @ CHR ''*'' # CHR ''*'' # rest) =
      (c # w) @ re_sub_scan False (bold p) repl st None (CHR ''*'' # CHR ''*'' # rest)"
    using w by (rule walk_nonstar)
  have n2: "\<not> match_here False (bold p) None (CHR ''*'' # CHR ''*'' # rest)"
    using p r(1) by (rule no_match_chunk_end2)
  note n3 = r(2)
  have "re_sub_scan False (bold p) repl st pv (bold p' @ rest) =
          re_sub_scan False (bold p) repl st pv (CHR ''*'' # CHR ''*'' # c # w @ CHR ''*'' # CHR ''*'' # rest)"
    by (simp add: bold_def cw)
  also have "\<dots> = CHR ''*'' # CHR ''*'' #
      re_sub_scan False (bold p) repl st (Some (CHR ''*'')) ((c # w) @ CHR ''*'' # CHR ''*'' # rest)"
    using n0 n1 by simp
  also have "\<dots> = CHR ''*'' # CHR ''*'' # (c # w) @
      re_sub_scan False (bold p) repl st None (CHR ''*'' # CHR ''*'' # rest)"
    by (simp only: body)
  also have "\<dots> = CHR ''*'' # CHR ''*'' # (c # w) @ CHR ''*'' # CHR ''*'' #
      re_sub_scan False (bold p) repl st (Some (CHR ''*'')) rest"
    using n2 n3 by simp
  also have "\<dots> = bold p' @ re_sub_scan False (bold p) repl st None rest"
    using re_sub_scan_prev [of "bold p" repl st "Some (CHR ''*'')" rest] by (simp add: bold_def cw)
  finally show ?thesis .
qed

lemma de_anonymize_scan_items:
  assumes p: "p \<noteq> []" "list_all is_word_char p"
  shows "good cx items \<Longrightarrow> \<not> occurs_ci (CHR ''*'' # p @ ''*'') (render_o items) \<Longrightarrow>
         re_sub_scan False (bold p) repl st pv (render_a items) = render_a (restore p repl st items)"
proof (induction items arbitrary: cx pv st)
  case Nil
  then show ?case by simp
next
  case (Cons it r)
  show ?case
  proof (cases it)
    case (L c)
    with Cons.prems have gr: "good (after_char c) r"
      and no: "\<not> occurs_ci (CHR ''*'' # p @ ''*'') (render_o r)"
      by simp_all
    have "\<not> match_here False (bold p) pv (c # render_a r)"
    proof (cases "c = CHR ''*''")
      case True
      with no_match_star_run [OF p gr no] show ?thesis by simp
    next
      case False
      then show ?thesis by (rule no_match_bold_nonstar)
    qed
    with Cons.IH [OF gr no] show ?thesis by (simp add: L)
  next
    case (K p' e')
    with Cons.prems have p': "p' \<noteq> []" "list_all is_word_char p'" and gr: "good AfterChunk r"
      by simp_all
    from Cons.prems(2) K have no: "\<not> occurs_ci (CHR ''*'' # p @ ''*'') (render_o r)"
      by (simp add: no_starred_suffix)
    show ?thesis
    proof (cases "str_lower p' = str_lower p")
      case True
      then have "str_lower (bold p') = str_lower (bold p)"
        by (simp add: bold_def str_lower_def)
      from scan_match [OF this bold_ne, of repl st pv "render_a r"]
      have "re_sub_scan False (bold p) repl st pv (bold p' @ render_a r) =
          fst (repl st (bold p')) @
          re_sub_scan False (bold p) repl (snd (repl st (bold p'))) None (render_a r)" .
      with Cons.IH [OF gr no] True show ?thesis
        by (simp add: K render_a_map_L)
    next
      case False
      from walk_other_chunk [OF p p' False good_after_chunk_next(1) [OF gr]
          no_match_star_run [OF p gr no], of repl st pv]
      have "re_sub_scan False (bold p) repl st pv (bold p' @ render_a r) =
            bold p' @ re_sub_scan False (bold p) repl st None (render_a r)" .
      with Cons.IH [OF gr no] False show ?thesis
        by (simp add: K)
    qed
  qed
qed

subsubsection \<open>Restoring chunks\<close>

lemma restore_is_const:
  "(\<And>st m. fst (repl st m) = e) \<Longrightarrow> restore p repl st items = restore_const p e items"
proof (induction items arbitrary: st)
  case Nil
  then show ?case by simp
next
  case (Cons it r)
  then show ?case by (cases it) simp_all
qed

lemma restore_none: "count_chunks p items = 0 \<Longrightarrow> restore p repl st items = items"
proof (induction items)
  case Nil
  then show ?case by simp
next
  case (Cons it r)
  then show ?case by (cases it) (simp_all split: if_splits)
qed

lemma restore_const_none: "count_chunks p items = 0 \<Longrightarrow> restore_const p e items = items"
proof (induction items)
  case Nil
  then show ?case by simp
next
  case (Cons it r)
  then show ?case by (cases it) (simp_all split: if_splits)
qed

lemma restore_person:
  "count_chunks p items \<le> 1 \<Longrightarrow>
   restore p PersonNameReplacer_call \<lparr>full_name = e, last_name = ln, count = 0\<rparr> items =
     restore_const p e items"
proof (induction items)
  case Nil
  then show ?case by simp
next
  case (Cons it r)
  show ?case
  proof (cases it)
    case (L c)
    with Cons show ?thesis by simp
  next
    case (K p' e')
    show ?thesis
    proof (cases "str_lower p' = str_lower p")
      case True
      with Cons.prems K have "count_chunks p r = 0" by simp
      then show ?thesis
        using True K
        by (simp add: restore_none restore_const_none PersonNameReplacer_call_def Let_def)
    next
      case False
      with Cons K show ?thesis by simp
    qed
  qed
qed

lemma good_restore_const:
  "good cx items \<Longrightarrow> good cx (restore_const p e items)"
proof (induction items arbitrary: cx)
  case Nil
  then show ?case by simp
next
  case (Cons it r)
  show ?case
  proof (cases it)
    case (L c)
    with Cons show ?thesis by simp
  next
    case (K p' e')
    with Cons.prems have cx: "cx = Free" and g: "good AfterChunk r" by simp_all
    from Cons.IH [OF g] have g': "good AfterChunk (restore_const p e r)" .
    show ?thesis
    proof (cases "str_lower p' = str_lower p")
      case True
      from g' have "good (if e = [] then cx else after_char (last e)) (restore_const p e r)"
        by (rule good_weaken)
      with cx have "good cx (map L e @ restore_const p e r)"
        by (intro good_literals) simp_all
      with True K show ?thesis by simp
    next
      case False
      with Cons.prems K g' show ?thesis by simp
    qed
  qed
qed

lemma render_o_restore_const:
  "(\<forall>x \<in> chunks items. str_lower (fst x) = str_lower p \<longrightarrow> snd x = e) \<Longrightarrow>
   render_o (restore_const p e items) = render_o items"
proof (induction items)
  case Nil
  then show ?case by simp
next
  case (Cons it r)
  show ?case
  proof (cases it)
    case (L c)
    with Cons show ?thesis by simp
  next
    case (K p' e')
    with Cons have IH: "render_o (restore_const p e r) = render_o r" by simp
    show ?thesis
    proof (cases "str_lower p' = str_lower p")
      case True
      with Cons.prems K have "e' = e" by simp
      with True K IH show ?thesis by (simp add: render_o_map_L)
    next
      case False
      with K IH show ?thesis by simp
    qed
  qed
qed

lemma Collect_insert_out: "\<not> P a \<Longrightarrow> {x \<in> insert a S. P x} = {x \<in> S. P x}"
  by auto

lemma Collect_insert_in: "P a \<Longrightarrow> {x \<in> insert a S. P x} = insert a {x \<in> S. P x}"
  by auto

lemma chunks_restore_const:
  "chunks (restore_const p e items) = {x \<in> chunks items. str_lower (fst x) \<noteq> str_lower p}"
proof (induction items)
  case Nil
  then show ?case by simp
next
  case (Cons it r)
  show ?case
  proof (cases it)
    case (L c)
    with Cons show ?thesis by simp
  next
    case (K p' e')
    show ?thesis
    proof (cases "str_lower p' = str_lower p")
      case True
      then have "{x \<in> insert (p', e') (chunks r). str_lower (fst x) \<noteq> str_lower p} =
                 {x \<in> chunks r. str_lower (fst x) \<noteq> str_lower p}"
        by (intro Collect_insert_out) simp
      with True K Cons show ?thesis by (simp add: chunks_map_L)
    next
      case False
      then have "{x \<in> insert (p', e') (chunks r). str_lower (fst x) \<noteq> str_lower p} =
                 insert (p', e') {x \<in> chunks r. str_lower (fst x) \<noteq> str_lower p}"
        by (intro Collect_insert_in) simp
      with False K Cons show ?thesis by simp
    qed
  qed
qed

lemma count_matches_suffix:
  "count_matches e (if x = [] then pv else Some (last x)) y \<le> count_matches e pv (x @ y)"
proof (induction x arbitrary: pv)
  case Nil
  then show ?case by simp
next
  case (Cons c x)
  from Cons.IH [of "Some c"]
  have "count_matches e (if x = [] then Some c else Some (last x)) y \<le> count_matches e (Some c) (x @ y)" .
  then show ?case by (cases "x = []") simp_all
qed

lemma count_matches_self:
  assumes "e \<noteq> []" "match_here True e pv (e @ y)"
  shows "Suc (count_matches e (Some (last e)) y) \<le> count_matches e pv (e @ y)"
proof -
  from assms(1) obtain a e' where e: "e = a # e'" by (cases e) auto
  from assms(2) have "count_matches e pv (e @ y) = Suc (count_matches e (Some a) (e' @ y))"
    by (simp add: e)
  moreover have "(if e' = [] then Some a else Some (last e')) = Some (last e)"
    by (simp add: e)
  ultimately show ?thesis
    using count_matches_suffix [of e e' "Some a" y] by simp
qed

lemma count_chunks_le:
  assumes e: "e \<noteq> []" "is_word_char (hd e)" "is_word_char (last e)"
  shows "(\<forall>x \<in> chunks items. str_lower (fst x) = str_lower p \<longrightarrow> snd x = e) \<Longrightarrow>
         good cx items \<Longrightarrow> (cx = Free \<longrightarrow> \<not> is_word_opt pvT) \<Longrightarrow>
         count_chunks p items \<le> count_matches e pvT (render_o items)"
proof (induction items arbitrary: cx pvT)
  case Nil
  then show ?case by simp
next
  case (Cons it r)
  show ?case
  proof (cases it)
    case (L c)
    with Cons.prems have g: "good (after_char c) r"
      and ch: "\<forall>x \<in> chunks r. str_lower (fst x) = str_lower p \<longrightarrow> snd x = e"
      by simp_all
    have "after_char c = Free \<longrightarrow> \<not> is_word_opt (Some c)"
      by (simp add: after_char_def is_word_opt_def)
    from Cons.IH [OF ch g this] L show ?thesis by (simp add: le_SucI)
  next
    case (K p' e')
    with Cons.prems have cx: "cx = Free" and g: "good AfterChunk r"
      and ch: "\<forall>x \<in> chunks r. str_lower (fst x) = str_lower p \<longrightarrow> snd x = e"
      by simp_all
    have "AfterChunk = Free \<longrightarrow> \<not> is_word_opt pv'" for pv' by simp
    from Cons.IH [OF ch g this]
    have IH: "count_chunks p r \<le> count_matches e pv' (render_o r)" for pv' .
    show ?thesis
    proof (cases "str_lower p' = str_lower p")
      case True
      with Cons.prems(1) K have e': "e' = e" by simp
      from e(1) have nx: "next_char (e @ render_o r) = Some (hd e)"
        by (cases e) (simp_all add: next_char_def)
      from cx Cons.prems(3) have npv: "\<not> is_word_opt pvT" by simp
      have "match_here True e pvT (e @ render_o r)"
        unfolding match_here_def ci_prefix_def nx
        using e npv good_after_chunk_next(2) [OF g]
        by (simp add: word_boundary_def is_word_opt_def)
      from count_matches_self [OF e(1) this] IH [of "Some (last e)"] True K e'
      show ?thesis by simp
    next
      case False
      with K IH [of "if e' = [] then pvT else Some (last e')"]
        count_matches_suffix [of e e' pvT "render_o r"]
      show ?thesis by simp
    qed
  qed
qed

subsubsection \<open>Entities whose pattern matches nowhere\<close>

lemma no_match_count: "count_matches e pv tx = 0 \<Longrightarrow> \<not> match_here True e pv tx"
  by (cases tx) (auto simp add: match_here_def ci_prefix_Nil_text)

lemma count_matches_zero_suffix:
  "count_matches e pv (x @ y) = 0 \<Longrightarrow> count_matches e (if x = [] then pv else Some (last x)) y = 0"
  using count_matches_suffix [of e x pv y] by simp

lemma star_not_word: "\<not> is_word_opt (Some (CHR ''*''))"
  by (simp add: is_word_opt_def is_word_char_def)

lemma anonymize_scan_inert:
  fixes repl :: "'st \<Rightarrow> string \<Rightarrow> string \<times> 'st"
  assumes e: "e \<noteq> []" "CHR ''*'' \<notin> set e"
  shows "good cx items \<Longrightarrow> (cx \<noteq> AfterChunk \<longrightarrow> pvT = pv) \<Longrightarrow>
         (cx = AfterChunk \<longrightarrow> \<not> is_word_opt pv) \<Longrightarrow>
         (\<forall>x \<in> chunks items. str_lower e \<noteq> str_lower (fst x)) \<Longrightarrow>
         count_matches e pvT (render_o items) = 0 \<Longrightarrow>
         re_sub_scan True e repl st pv (render_a items) = render_a items"
proof (induction items arbitrary: cx pv pvT)
  case Nil
  then show ?case by simp
next
  case (Cons it r)
  show ?case
  proof (cases it)
    case (K p' e')
    from Cons.prems(1) K have p': "p' \<noteq> []" "list_all is_word_char p'"
      and gr: "good AfterChunk r"
      by simp_all
    from Cons.prems(4) K have ne: "str_lower e \<noteq> str_lower p'" and
      ch: "\<forall>x \<in> chunks r. str_lower e \<noteq> str_lower (fst x)"
      by simp_all
    from Cons.prems(5) K have "count_matches e pvT (e' @ render_o r) = 0" by simp
    then have cz: "count_matches e (if e' = [] then pvT else Some (last e')) (render_o r) = 0"
      by (rule count_matches_zero_suffix)
    have sc: "re_sub_scan True e repl st pv (render_a (it # r)) =
              bold p' @ re_sub_scan True e repl st (Some (CHR ''*'')) (render_a r)"
      using walk_chunk [OF e(1,2) p'(2,1) ne] by (simp add: K)
    have "AfterChunk \<noteq> AfterChunk \<longrightarrow> (if e' = [] then pvT else Some (last e')) = Some (CHR ''*'')"
      and "AfterChunk = AfterChunk \<longrightarrow> \<not> is_word_opt (Some (CHR ''*''))"
      by (simp_all add: star_not_word)
    from Cons.IH [OF gr this ch cz] sc show ?thesis by (simp add: K)
  next
    case (L c)
    from Cons.prems(1) L have c: "cx = AfterChunk \<longrightarrow> \<not> is_word_char c"
      and gr: "good (after_char c) r"
      by simp_all
    have nm: "\<not> match_here True e pv (c # render_a r)"
    proof
      assume mh0: "match_here True e pv (c # render_a r)"
      let ?t = "render_a (it # r)"
      define m where "m = take (length e) ?t"
      from mh0 L have mh: "match_here True e pv ?t" by simp
      then have cp: "ci_prefix e ?t"
        and sb: "word_boundary pv (next_char ?t)"
        and eb: "word_boundary (Some (last m)) (next_char (drop (length e) ?t))"
        by (simp_all add: match_here_def m_def)
      from cp have low: "str_lower m = str_lower e" and len: "length m = length e"
        by (simp_all add: ci_prefix_def m_def)
      from low e(2) have ns: "CHR ''*'' \<notin> set m" by (rule str_lower_no_star)
      have split: "?t = m @ drop (length e) ?t" by (simp add: m_def)
      from literal_items [OF split ns] obtain r0 where
        r0: "it # r = map L m @ r0" "render_a r0 = drop (length e) ?t"
        by blast
      from len e(1) have mne: "m \<noteq> []" by auto
      from mne split L have hm: "hd m = c" by (cases m) simp_all
      have cx1: "cx \<noteq> AfterChunk"
      proof
        assume a: "cx = AfterChunk"
        with c Cons.prems(3) have "\<not> is_word_char c" "\<not> is_word_opt pv" by simp_all
        with sb L show False
          by (simp add: word_boundary_def next_char_def is_word_opt_def)
      qed
      with Cons.prems(2) have pvT: "pvT = pv" by simp
      have ro: "render_o (it # r) = m @ render_o r0"
        by (simp only: r0(1) render_o_map_L)
      from Cons.prems(1) r0(1) have "good cx (map L m @ r0)" by simp
      with mne have g0: "good (after_char (last m)) r0"
        by (rule good_after_literals)
      have nxo: "is_word_opt (next_char (render_o r0)) = is_word_opt (next_char (render_a r0))"
      proof (cases r0)
        case Nil
        then show ?thesis by simp
      next
        case (Cons it0 r1)
        show ?thesis
        proof (cases it0)
          case (L d)
          with Cons show ?thesis by (simp add: next_char_def)
        next
          case (K p2 e2)
          with g0 Cons have "after_char (last m) = Free" by simp
          then have "\<not> is_word_char (last m)" by (simp add: after_char_def split: if_splits)
          moreover from K Cons have "next_char (render_a r0) = Some (CHR ''*'')"
            by (simp add: next_char_def bold_def)
          ultimately show ?thesis
            using eb r0(2) by (simp add: word_boundary_def is_word_opt_def is_word_char_def)
        qed
      qed
      have tk: "take (length e) (m @ render_o r0) = m" "drop (length e) (m @ render_o r0) = render_o r0"
        using len by simp_all
      have nx: "next_char (m @ render_o r0) = Some (hd m)"
        using mne by (cases m) (simp_all add: next_char_def)
      from sb L hm have sb': "word_boundary pv (Some (hd m))" by (simp add: next_char_def)
      from eb r0(2) nxo have eb': "word_boundary (Some (last m)) (next_char (render_o r0))"
        by (simp add: word_boundary_def)
      have "match_here True e pv (m @ render_o r0)"
        unfolding match_here_def ci_prefix_def tk nx
        using e(1) low len sb' eb' by simp
      moreover from Cons.prems(5) ro pvT have "count_matches e pv (m @ render_o r0) = 0"
        by simp
      ultimately show False using no_match_count by blast
    qed
    then have sc: "re_sub_scan True e repl st pv (render_a (it # r)) =
              c # re_sub_scan True e repl st (Some c) (render_a r)"
      by (simp add: L)
    from Cons.prems(4) L have ch: "\<forall>x \<in> chunks r. str_lower e \<noteq> str_lower (fst x)"
      by simp
    from Cons.prems(5) L have cz: "count_matches e (Some c) (render_o r) = 0"
      by simp
    have "after_char c \<noteq> AfterChunk \<longrightarrow> Some c = Some c"
      and "after_char c = AfterChunk \<longrightarrow> \<not> is_word_opt (Some c)"
      by (simp_all add: after_char_def)
    from Cons.IH [OF gr this ch cz] sc show ?thesis by (simp add: L)
  qed
qed

lemma count_chunks_none:
  "(\<forall>x \<in> chunks items. str_lower (fst x) \<noteq> str_lower p) \<Longrightarrow> count_chunks p items = 0"
proof (induction items)
  case Nil
  then show ?case by simp
next
  case (Cons it r)
  then show ?case by (cases it) simp_all
qed

lemma render_no_chunks: "chunks items = {} \<Longrightarrow> render_a items = render_o items"
proof (induction items)
  case Nil
  then show ?case by simp
next
  case (Cons it r)
  then show ?case by (cases it) simp_all
qed

subsubsection \<open>One entry\<close>

lemma bold_no_backslash: "list_all is_word_char p \<Longrightarrow> backslash \<notin> set (bold p)"
  by (auto simp add: bold_def backslash_def list_all_iff dest: word_not_backslash [unfolded backslash_def])

lemma anonymize_entry_items:
  assumes e: "e \<noteq> []" "CHR ''*'' \<notin> set e" "is_word_char (hd e)" "is_word_char (last e)"
    and p: "p \<noteq> []" "list_all is_word_char p"
    and items: "good Free items" "\<forall>x \<in> chunks items. str_lower e \<noteq> str_lower (fst x)"
      "exact_case e None (render_o items)"
  shows "\<exists>items'. anonymize_entry [] (render_a items) (p, e) = Inr (render_a items') \<and>
                   render_o items' = render_o items \<and> good Free items' \<and>
                   chunks items' \<subseteq> insert (p, e) (chunks items)"
proof -
  have "anonymize_entry [] (render_a items) (p, e) =
          Inr (re_sub_scan True e (\<lambda>st m. (bold p, st)) () None (render_a items))"
    using e(1) by (simp add: anonymize_entry_def except_re_error_def
        re_sub_literal [OF bold_no_backslash [OF p(2)]])
  moreover have "Free = Free \<longrightarrow> \<not> is_word_opt None \<and> None = (None :: char option)"
    "Free = AfterWord \<longrightarrow> is_word_opt None"
    by (simp_all add: is_word_opt_def)
  from anonymize_scan_items [OF e p _ items(1) this items(2,3),
      of "\<lambda>st m. (bold p, st)" "()"]
  obtain items' where
    "re_sub_scan True e (\<lambda>st m. (bold p, st)) () None (render_a items) = render_a items'"
    "render_o items' = render_o items" "good Free items'"
    "chunks items' \<subseteq> insert (p, e) (chunks items)"
    by auto
  ultimately show ?thesis by auto
qed

lemma anonymize_entry_inert:
  assumes e: "e \<noteq> []" "CHR ''*'' \<notin> set e"
    and p: "list_all is_word_char p"
    and items: "good Free items" "\<forall>x \<in> chunks items. str_lower e \<noteq> str_lower (fst x)"
      "count_matches e None (render_o items) = 0"
  shows "anonymize_entry [] (render_a items) (p, e) = Inr (render_a items)"
proof -
  have "anonymize_entry [] (render_a items) (p, e) =
          Inr (re_sub_scan True e (\<lambda>st m. (bold p, st)) () None (render_a items))"
    using e(1) by (simp add: anonymize_entry_def except_re_error_def
        re_sub_literal [OF bold_no_backslash [OF p]])
  moreover have "Free \<noteq> AfterChunk \<longrightarrow> None = (None :: char option)"
    "Free = AfterChunk \<longrightarrow> \<not> is_word_opt None"
    by simp_all
  from anonymize_scan_inert [OF e items(1) this items(2,3), of "\<lambda>st m. (bold p, st)" "()"]
  have "re_sub_scan True e (\<lambda>st m. (bold p, st)) () None (render_a items) = render_a items" .
  ultimately show ?thesis by simp
qed

lemma de_anonymize_entry_items:
  assumes p: "p \<noteq> []" "list_all is_word_char p" and e: "backslash \<notin> set e"
    and items: "good cx items" "\<not> occurs_ci (CHR ''*'' # p @ ''*'') (render_o items)"
    and once: "startswith p ''person_'' \<and> 2 \<le> length (split e) \<longrightarrow> count_chunks p items \<le> 1"
  shows "de_anonymize_entry (render_a items) (p, e) = Inr (render_a (restore_const p e items))"
proof (cases "startswith p ''person_'' \<and> 2 \<le> length (split e)")
  case True
  then have ne: "split e \<noteq> []" "length (split e) \<noteq> 1" by auto
  from True once have "count_chunks p items \<le> 1" by simp
  then have "restore p PersonNameReplacer_call
               \<lparr>full_name = e, last_name = last (split e), count = 0\<rparr> items = restore_const p e items"
    by (rule restore_person)
  with de_anonymize_scan_items [OF p items, of PersonNameReplacer_call
      "\<lparr>full_name = e, last_name = last (split e), count = 0\<rparr>" None]
  have "re_sub_scan False (bold p) PersonNameReplacer_call
          \<lparr>full_name = e, last_name = last (split e), count = 0\<rparr> None (render_a items) =
        render_a (restore_const p e items)"
    by simp
  with True ne p(1) show ?thesis
    by (simp add: de_anonymize_entry_def Let_def except_re_error_def re_sub_callable_def)
next
  case False
  have "restore p (\<lambda>st m. (e, st)) () items = restore_const p e items"
    by (rule restore_is_const) simp
  with de_anonymize_scan_items [OF p items, of "\<lambda>st m. (e, st)" "()" None]
  have sc: "re_sub_scan False (bold p) (\<lambda>st m. (e, st)) () None (render_a items) =
        render_a (restore_const p e items)"
    by simp
  have r: "re_sub False (bold p) e (render_a items) = Inr (render_a (restore_const p e items))"
    using sc by (simp add: re_sub_literal [OF e])
  have "length (split e) < 2 \<Longrightarrow> split e = [] \<or> length (split e) = 1"
    by (cases "split e") auto
  with False have br: "\<not> startswith p ''person_'' \<or> split e = [] \<or> length (split e) = 1"
    by auto
  show ?thesis
  proof (cases "startswith p ''person_''")
    case True
    with br have "split e = [] \<or> length (split e) = 1" by simp
    with True p(1) r show ?thesis
      by (simp add: de_anonymize_entry_def Let_def except_re_error_def)
  next
    case False
    with p(1) r show ?thesis
      by (simp add: de_anonymize_entry_def Let_def except_re_error_def)
  qed
qed

subsubsection \<open>The loops\<close>

lemma round_trip_okD:
  assumes "round_trip_ok T E" "(p, e) \<in> set E"
  shows "p \<noteq> []" "list_all is_word_char p" "e \<noteq> []" "CHR ''*'' \<notin> set e" "backslash \<notin> set e"
    "\<forall>x \<in> set E. str_lower e \<noteq> str_lower (fst x)"
    "\<not> occurs_ci (CHR ''*'' # p @ ''*'') T"
    "word_ended e \<longrightarrow> exact_case e None T"
    "word_ended e \<and> startswith p ''person_'' \<and> 2 \<le> length (split e) \<longrightarrow> count_matches e None T \<le> 1"
    "\<not> word_ended e \<longrightarrow> count_matches e None T = 0"
proof -
  from assms have ok: "entry_ok T E (p, e)"
    by (simp add: round_trip_ok_def list_all_iff)
  then show "p \<noteq> []" "list_all is_word_char p" "e \<noteq> []" "CHR ''*'' \<notin> set e" "backslash \<notin> set e"
    "\<not> occurs_ci (CHR ''*'' # p @ ''*'') T"
    by (simp_all add: entry_ok_def)
  from ok show "\<forall>x \<in> set E. str_lower e \<noteq> str_lower (fst x)"
    by (simp add: entry_ok_def list_all_iff)
  from ok show "word_ended e \<longrightarrow> exact_case e None T"
    by (auto simp add: entry_ok_def split: if_splits)
  from ok show "\<not> word_ended e \<longrightarrow> count_matches e None T = 0"
    by (auto simp add: entry_ok_def split: if_splits)
  from ok show "word_ended e \<and> startswith p ''person_'' \<and> 2 \<le> length (split e) \<longrightarrow>
      count_matches e None T \<le> 1"
    by (auto simp add: entry_ok_def split: if_splits)
qed

lemma round_trip_ok_same_placeholder:
  assumes "round_trip_ok T E" "x \<in> set E" "y \<in> set E" "str_lower (fst x) = str_lower (fst y)"
  shows "x = y"
proof -
  from assms(1) have "distinct (map (\<lambda>pe. str_lower (fst pe)) E)"
    by (simp add: round_trip_ok_def)
  then have "inj_on (\<lambda>pe. str_lower (fst pe)) (set E)"
    by (simp add: distinct_map)
  with assms(2-4) show ?thesis by (auto dest: inj_onD)
qed

lemma anonymize_loop_items:
  assumes ok: "round_trip_ok T E"
  shows "set es \<subseteq> set E \<Longrightarrow> good Free items \<Longrightarrow> render_o items = T \<Longrightarrow>
         chunks items \<subseteq> {x \<in> set E. word_ended (snd x)} \<Longrightarrow>
         \<exists>items'. anonymize_loop [] (render_a items) es = Inr (render_a items') \<and>
                   render_o items' = T \<and> good Free items' \<and>
                   chunks items' \<subseteq> {x \<in> set E. word_ended (snd x)}"
proof (induction es arbitrary: items)
  case Nil
  then have "anonymize_loop [] (render_a items) [] = Inr (render_a items) \<and>
             render_o items = T \<and> good Free items \<and>
             chunks items \<subseteq> {x \<in> set E. word_ended (snd x)}"
    by simp
  then show ?case by blast
next
  case (Cons pe es)
  obtain p e where pe: "pe = (p, e)" by (cases pe)
  with Cons.prems(1) have mem: "(p, e) \<in> set E" by simp
  note d = round_trip_okD [OF ok mem]
  from d(6) Cons.prems(4) have ch: "\<forall>x \<in> chunks items. str_lower e \<noteq> str_lower (fst x)"
    by blast
  have "\<exists>items1. anonymize_entry [] (render_a items) (p, e) = Inr (render_a items1) \<and>
          render_o items1 = render_o items \<and> good Free items1 \<and>
          chunks items1 \<subseteq> {x \<in> set E. word_ended (snd x)}"
  proof (cases "word_ended e")
    case True
    then have we: "is_word_char (hd e)" "is_word_char (last e)" by (simp_all add: word_ended_def)
    from True d(8) Cons.prems(3) have ex: "exact_case e None (render_o items)" by simp
    from anonymize_entry_items [OF d(3) d(4) we d(1) d(2) Cons.prems(2) ch ex]
    obtain items1 where i1: "anonymize_entry [] (render_a items) (p, e) = Inr (render_a items1)"
      "render_o items1 = render_o items" "good Free items1"
      "chunks items1 \<subseteq> insert (p, e) (chunks items)"
      by blast
    from i1(4) mem True Cons.prems(4) have "chunks items1 \<subseteq> {x \<in> set E. word_ended (snd x)}"
      by auto
    with i1(1-3) show ?thesis by blast
  next
    case False
    with d(10) Cons.prems(3) have cz: "count_matches e None (render_o items) = 0" by simp
    from anonymize_entry_inert [OF d(3) d(4) d(2) Cons.prems(2) ch cz] Cons.prems(2,4)
    show ?thesis by blast
  qed
  then obtain items1 where i1: "anonymize_entry [] (render_a items) (p, e) = Inr (render_a items1)"
    "render_o items1 = render_o items" "good Free items1"
    "chunks items1 \<subseteq> {x \<in> set E. word_ended (snd x)}"
    by blast
  from Cons.prems(1) have "set es \<subseteq> set E" by simp
  from Cons.IH [OF this i1(3) _ i1(4)] i1(2) Cons.prems(3)
  obtain items' where "anonymize_loop [] (render_a items1) es = Inr (render_a items')"
    "render_o items' = T" "good Free items'" "chunks items' \<subseteq> {x \<in> set E. word_ended (snd x)}"
    by auto
  with i1(1) pe have "anonymize_loop [] (render_a items) (pe # es) = Inr (render_a items') \<and>
             render_o items' = T \<and> good Free items' \<and>
             chunks items' \<subseteq> {x \<in> set E. word_ended (snd x)}"
    by simp
  then show ?case by blast
qed

lemma de_anonymize_loop_items:
  assumes ok: "round_trip_ok T E"
  shows "set es \<subseteq> set E \<Longrightarrow> good Free items \<Longrightarrow> render_o items = T \<Longrightarrow>
         chunks items \<subseteq> {x \<in> set E. word_ended (snd x)} \<Longrightarrow>
         \<exists>items'. de_anonymize_loop (render_a items) es = Inr (render_a items') \<and>
                   render_o items' = T \<and> good Free items' \<and>
                   chunks items' \<subseteq>
                     {x \<in> chunks items. \<forall>y \<in> set es. str_lower (fst x) \<noteq> str_lower (fst y)}"
proof (induction es arbitrary: items)
  case Nil
  then have "de_anonymize_loop (render_a items) [] = Inr (render_a items) \<and>
             render_o items = T \<and> good Free items \<and>
             chunks items \<subseteq> {x \<in> chunks items. \<forall>y \<in> set []. str_lower (fst x) \<noteq> str_lower (fst y)}"
    by simp
  then show ?case by blast
next
  case (Cons pe es)
  obtain p e where pe: "pe = (p, e)" by (cases pe)
  with Cons.prems(1) have mem: "(p, e) \<in> set E" by simp
  note d = round_trip_okD [OF ok mem]
  have same0: "x = (p, e)" if "x \<in> chunks items" "str_lower (fst x) = str_lower p" for x
    using that Cons.prems(4) round_trip_ok_same_placeholder [OF ok _ mem, of x] by auto
  then have same: "\<forall>x \<in> chunks items. str_lower (fst x) = str_lower p \<longrightarrow> snd x = e"
    by auto
  have once: "startswith p ''person_'' \<and> 2 \<le> length (split e) \<longrightarrow> count_chunks p items \<le> 1"
  proof (cases "word_ended e")
    case True
    then have we: "e \<noteq> []" "is_word_char (hd e)" "is_word_char (last e)"
      by (simp_all add: word_ended_def)
    have "Free = Free \<longrightarrow> \<not> is_word_opt None" by (simp add: is_word_opt_def)
    from count_chunks_le [OF we same Cons.prems(2) this] Cons.prems(3) d(9) True
    show ?thesis by auto
  next
    case False
    have "\<forall>x \<in> chunks items. str_lower (fst x) \<noteq> str_lower p"
    proof
      fix x assume x: "x \<in> chunks items"
      show "str_lower (fst x) \<noteq> str_lower p"
      proof
        assume "str_lower (fst x) = str_lower p"
        with same0 x have "x = (p, e)" by blast
        with x Cons.prems(4) False show False by auto
      qed
    qed
    then have "count_chunks p items = 0" by (rule count_chunks_none)
    then show ?thesis by simp
  qed
  from d(7) Cons.prems(3) have no: "\<not> occurs_ci (CHR ''*'' # p @ ''*'') (render_o items)" by simp
  define items1 where "items1 = restore_const p e items"
  from de_anonymize_entry_items [OF d(1) d(2) d(5) Cons.prems(2) no once]
  have s1: "de_anonymize_entry (render_a items) (p, e) = Inr (render_a items1)"
    by (simp add: items1_def)
  have g1: "good Free items1"
    unfolding items1_def using Cons.prems(2) by (rule good_restore_const)
  have r1: "render_o items1 = T"
    unfolding items1_def using render_o_restore_const [OF same] Cons.prems(3) by simp
  have c1: "chunks items1 = {x \<in> chunks items. str_lower (fst x) \<noteq> str_lower p}"
    unfolding items1_def by (rule chunks_restore_const)
  with Cons.prems(4) have c1E: "chunks items1 \<subseteq> {x \<in> set E. word_ended (snd x)}" by blast
  from Cons.prems(1) have "set es \<subseteq> set E" by simp
  from Cons.IH [OF this g1 r1 c1E]
  obtain items' where i': "de_anonymize_loop (render_a items1) es = Inr (render_a items')"
    "render_o items' = T" "good Free items'"
    "chunks items' \<subseteq> {x \<in> chunks items1. \<forall>y \<in> set es. str_lower (fst x) \<noteq> str_lower (fst y)}"
    by blast
  from i'(4) c1 pe
  have "chunks items' \<subseteq>
          {x \<in> chunks items. \<forall>y \<in> set (pe # es). str_lower (fst x) \<noteq> str_lower (fst y)}"
    by auto
  with s1 pe i'(1-3)
  have "de_anonymize_loop (render_a items) (pe # es) = Inr (render_a items') \<and>
        render_o items' = T \<and> good Free items' \<and>
        chunks items' \<subseteq>
          {x \<in> chunks items. \<forall>y \<in> set (pe # es). str_lower (fst x) \<noteq> str_lower (fst y)}"
    by simp
  then show ?case by blast
qed

lemma de_anonymize_loop_all:
  assumes ok: "round_trip_ok T E" and es: "set es = set E"
    and items: "good Free items" "render_o items = T"
      "chunks items \<subseteq> {x \<in> set E. word_ended (snd x)}"
  shows "de_anonymize_loop (render_a items) es = Inr T"
proof -
  from es have "set es \<subseteq> set E" by simp
  from de_anonymize_loop_items [OF ok this items]
  obtain items' where i': "de_anonymize_loop (render_a items) es = Inr (render_a items')"
    "render_o items' = T"
    "chunks items' \<subseteq> {x \<in> chunks items. \<forall>y \<in> set es. str_lower (fst x) \<noteq> str_lower (fst y)}"
    by blast
  have "chunks items' = {}"
  proof (rule ccontr)
    assume "chunks items' \<noteq> {}"
    then obtain x where "x \<in> chunks items'" by blast
    with i'(3) have "x \<in> chunks items" "\<forall>y \<in> set es. str_lower (fst x) \<noteq> str_lower (fst y)"
      by auto
    with items(3) es show False by blast
  qed
  then have "render_a items' = render_o items'" by (rule render_no_chunks)
  with i'(1,2) show ?thesis by simp
qed

lemma set_sort_by_len_desc: "set (sort_by_len_desc key xs) = set xs"
  by (simp add: sort_by_len_desc_def)

text \<open>
  C1 (as amended). Let the entry list \<open>E\<close> be fit for the text \<open>T\<close>: the placeholders are
  non-empty strings of word characters, pairwise distinct even ignoring case, and none
  stands in \<open>T\<close> directly between two asterisks; the real entities are non-empty, have
  neither \<^verbatim>\<open>*\<close> nor a backslash and are not (ignoring case) a placeholder of \<open>E\<close>; a real
  entity that starts and ends with a word character is written in \<open>T\<close>, wherever its pattern
  matches, exactly as in the entry, and that of a \<^verbatim>\<open>person_\<close> entry of two or more tokens
  matches at most once; the pattern of any other real entity matches nowhere in \<open>T\<close>. Then
  \<^verbatim>\<open>anonymize_text_logic\<close> with no exclusions returns a text \<open>A\<close> without error, and
  \<^verbatim>\<open>de_anonymize_text_logic\<close> of \<open>A\<close>, with the list as the anonymization left it or with \<open>E\<close>
  itself, returns \<open>T\<close>. Nothing is asked of the real entities among themselves: they may
  overlap and contain one another.
\<close>

theorem round_trip_restores_text:
  assumes "round_trip_ok T E"
  shows "\<exists>A. fst (anonymize_text_logic T E None) = Inr A \<and>
             fst (anonymize_text_logic T E (Some [])) = Inr A \<and>
             fst (de_anonymize_text_logic A (snd (anonymize_text_logic T E None))) = Inr T \<and>
             fst (de_anonymize_text_logic A E) = Inr T"
proof -
  have r0: "render_a (map L T) = T" "render_o (map L T) = T" "chunks (map L T) = {}"
    using render_a_map_L [of T "[]"] render_o_map_L [of T "[]"] chunks_map_L [of T "[]"]
    by simp_all
  have g0: "good Free (map L T)"
    using good_literals [of Free T "[]"] by simp
  have "set (sort_by_len_desc snd E) \<subseteq> set E" by (simp add: set_sort_by_len_desc)
  from anonymize_loop_items [OF assms this g0 r0(2)] r0(1,3)
  obtain items where i: "anonymize_loop [] T (sort_by_len_desc snd E) = Inr (render_a items)"
    "render_o items = T" "good Free items" "chunks items \<subseteq> {x \<in> set E. word_ended (snd x)}"
    by auto
  have d1: "de_anonymize_loop (render_a items) (sort_by_len_desc fst (sort_by_len_desc snd E)) = Inr T"
    using assms _ i(3,2,4) by (rule de_anonymize_loop_all) (simp add: set_sort_by_len_desc)
  have d2: "de_anonymize_loop (render_a items) (sort_by_len_desc fst E) = Inr T"
    using assms _ i(3,2,4) by (rule de_anonymize_loop_all) (simp add: set_sort_by_len_desc)
  have "fst (anonymize_text_logic T E None) = Inr (render_a items) \<and>
        fst (anonymize_text_logic T E (Some [])) = Inr (render_a items) \<and>
        fst (de_anonymize_text_logic (render_a items) (snd (anonymize_text_logic T E None))) = Inr T \<and>
        fst (de_anonymize_text_logic (render_a items) E) = Inr T"
    using i(1) d1 d2
    by (simp add: fst_anonymize_text_logic snd_anonymize_text_logic fst_de_anonymize_text_logic)
  then show ?thesis by blast
qed

text \<open>The theorem at a text with asterisks, with \<^verbatim>\<open>may\<close> inside a longer word, and four
  entries: one of them a person of two tokens, one ending in a full stop.\<close>

theorem round_trip_restores_text_witness:
  "round_trip_ok ''Jane Doe of *Acme* Inc. said maybe May did.''
     [(''org_001'', ''Acme''), (''person_001'', ''May''), (''org_002'', ''Inc.''),
      (''person_002'', ''Jane Doe'')] \<and>
   fst (anonymize_text_logic ''Jane Doe of *Acme* Inc. said maybe May did.''
     [(''org_001'', ''Acme''), (''person_001'', ''May''), (''org_002'', ''Inc.''),
      (''person_002'', ''Jane Doe'')] (Some []))
     = Inr ''**person_002** of ***org_001*** Inc. said maybe **person_001** did.'' \<and>
   fst (de_anonymize_text_logic ''**person_002** of ***org_001*** Inc. said maybe **person_001** did.''
     [(''org_001'', ''Acme''), (''person_001'', ''May''), (''org_002'', ''Inc.''),
      (''person_002'', ''Jane Doe'')])
     = Inr ''Jane Doe of *Acme* Inc. said maybe May did.''"
proof -
  have ok: "round_trip_ok ''Jane Doe of *Acme* Inc. said maybe May did.''
     [(''org_001'', ''Acme''), (''person_001'', ''May''), (''org_002'', ''Inc.''),
      (''person_002'', ''Jane Doe'')]"
    by code_simp
  have an: "fst (anonymize_text_logic ''Jane Doe of *Acme* Inc. said maybe May did.''
     [(''org_001'', ''Acme''), (''person_001'', ''May''), (''org_002'', ''Inc.''),
      (''person_002'', ''Jane Doe'')] (Some []))
     = Inr ''**person_002** of ***org_001*** Inc. said maybe **person_001** did.''"
    by code_simp
  from round_trip_restores_text [OF ok] an ok show ?thesis
    by auto
qed

text \<open>
  C1 as stated fails. In each case below the placeholders are pairwise distinct and no real
  entity overlaps or contains another, and the text that comes back is not the original.
  \<^item> Matching ignores case: \<^verbatim>\<open>JOHN\<close> with the entity \<^verbatim>\<open>John\<close> comes back as \<^verbatim>\<open>John\<close>, and so
    does the same with a letter above 127.
  \<^item> A person of two tokens mentioned twice comes back with the surname alone the second
    time.
  \<^item> A placeholder between asterisks in the text is taken for a bolded placeholder once its
    neighbours are anonymized.
  \<^item> A real entity that is itself a placeholder is matched inside a bolded placeholder.
  \<^item> Two placeholders that differ only in case are restored as one.
  \<^item> Real entities that do not start or end with a word character leave a word of the text
    directly between the asterisks of their placeholders.
  \<^item> A placeholder with asterisks in it, and a real entity with asterisks in it, match across
    bolded placeholders.
  \<^item> A real entity with a backslash is read as a template on restoration: \<^verbatim>\<open>AC\DC\<close> is a bad
    escape, the error is caught and the placeholder stays.
\<close>

theorem round_trip_fails_on_case_and_repeated_person:
  "distinct (map fst [(''person_001'', ''John'')]) \<and>
   fst (anonymize_text_logic ''JOHN'' [(''person_001'', ''John'')] (Some [])) = Inr ''**person_001**'' \<and>
   fst (de_anonymize_text_logic ''**person_001**'' [(''person_001'', ''John'')]) = Inr ''John'' \<and>
   ''John'' \<noteq> ''JOHN'' \<and>
   fst (anonymize_text_logic ''Jane Doe met Jane Doe'' [(''person_001'', ''Jane Doe'')] (Some []))
     = Inr ''**person_001** met **person_001**'' \<and>
   fst (de_anonymize_text_logic ''**person_001** met **person_001**'' [(''person_001'', ''Jane Doe'')])
     = Inr ''Jane Doe met Doe'' \<and>
   ''Jane Doe met Doe'' \<noteq> ''Jane Doe met Jane Doe'' \<and>
   fst (anonymize_text_logic (''REN'' @ [CHR 0xC9] @ ''E'') [(''person_001'', ''Ren'' @ [CHR 0xE9] @ ''e'')] (Some []))
     = Inr ''**person_001**'' \<and>
   fst (de_anonymize_text_logic ''**person_001**'' [(''person_001'', ''Ren'' @ [CHR 0xE9] @ ''e'')])
     = Inr (''Ren'' @ [CHR 0xE9] @ ''e'') \<and>
   ''Ren'' @ [CHR 0xE9] @ ''e'' \<noteq> ''REN'' @ [CHR 0xC9] @ ''E'' \<and>
   distinct (map fst [(''org_1'', ''Acme''), (''org_2'', ''Bolt''), (''person_001'', ''Zed'')]) \<and>
   fst (anonymize_text_logic ''Acme*person_001*Bolt''
          [(''org_1'', ''Acme''), (''org_2'', ''Bolt''), (''person_001'', ''Zed'')] (Some []))
     = Inr ''**org_1***person_001***org_2**'' \<and>
   fst (de_anonymize_text_logic ''**org_1***person_001***org_2**''
          [(''org_1'', ''Acme''), (''org_2'', ''Bolt''), (''person_001'', ''Zed'')])
     = Inr ''**org_1*Zed*org_2**'' \<and>
   distinct (map fst [(''x_1'', ''Acme''), (''y_1'', ''x_1'')]) \<and>
   fst (anonymize_text_logic ''Acme'' [(''x_1'', ''Acme''), (''y_1'', ''x_1'')] (Some []))
     = Inr ''****y_1****'' \<and>
   fst (de_anonymize_text_logic ''****y_1****'' [(''x_1'', ''Acme''), (''y_1'', ''x_1'')])
     = Inr ''**x_1**'' \<and>
   distinct (map fst [(''p_1'', ''Ann''), (''P_1'', ''Bob'')]) \<and>
   fst (anonymize_text_logic ''Ann Bob'' [(''p_1'', ''Ann''), (''P_1'', ''Bob'')] (Some []))
     = Inr ''**p_1** **P_1**'' \<and>
   fst (de_anonymize_text_logic ''**p_1** **P_1**'' [(''p_1'', ''Ann''), (''P_1'', ''Bob'')])
     = Inr ''Ann Ann'' \<and>
   distinct (map fst [(''o1'', ''a.''), (''o2'', ''.b''), (''thing_001'', ''zz'')]) \<and>
   fst (anonymize_text_logic ''a.thing_001.b''
          [(''o1'', ''a.''), (''o2'', ''.b''), (''thing_001'', ''zz'')] (Some []))
     = Inr ''**o1**thing_001**o2**'' \<and>
   fst (de_anonymize_text_logic ''**o1**thing_001**o2**''
          [(''o1'', ''a.''), (''o2'', ''.b''), (''thing_001'', ''zz'')])
     = Inr ''**o1zzo2**'' \<and>
   distinct (map fst [(''a'', ''Ann''), (''b'', ''Bob''), (''a** **b'', ''Zed'')]) \<and>
   fst (anonymize_text_logic ''Ann Bob'' [(''a'', ''Ann''), (''b'', ''Bob''), (''a** **b'', ''Zed'')] (Some []))
     = Inr ''**a** **b**'' \<and>
   fst (de_anonymize_text_logic ''**a** **b**'' [(''a'', ''Ann''), (''b'', ''Bob''), (''a** **b'', ''Zed'')])
     = Inr ''Zed'' \<and>
   distinct (map fst [(''p'', ''Annabelle Lee''), (''q'', ''p** y'')]) \<and>
   fst (anonymize_text_logic ''Annabelle Lee y'' [(''p'', ''Annabelle Lee''), (''q'', ''p** y'')] (Some []))
     = Inr ''****q**'' \<and>
   fst (de_anonymize_text_logic ''****q**'' [(''p'', ''Annabelle Lee''), (''q'', ''p** y'')])
     = Inr ''**p** y'' \<and>
   fst (anonymize_text_logic (''AC'' @ [CHR 0x5C] @ ''DC rocks'')
          [(''org_001'', ''AC'' @ [CHR 0x5C] @ ''DC'')] (Some []))
     = Inr ''**org_001** rocks'' \<and>
   fst (de_anonymize_text_logic ''**org_001** rocks'' [(''org_001'', ''AC'' @ [CHR 0x5C] @ ''DC'')])
     = Inr ''**org_001** rocks''"
  by code_simp

end
